theory Spec2Isabelle
  imports Main "HOL-Library.Word" "HOL-Library.Multiset"
begin

section \<open>Data model\<close>

text \<open>
  The four node shapes of \<^verbatim>\<open>node.hpp\<close> (\<^verbatim>\<open>Node<KT, VT, balanced>\<close>) are embedded in one
  datatype. \<open>Null\<close> is the empty \<^verbatim>\<open>std::shared_ptr\<close> (\<^verbatim>\<open>nullptr\<close>). A key-only node
  (\<^verbatim>\<open>VT = void\<close>) is a node whose value type is \<open>unit\<close>. The fields \<^verbatim>\<open>balanceFactor\<close>
  and \<^verbatim>\<open>duplicates\<close> exist in the source only when \<^verbatim>\<open>balanced = true\<close>; the functions
  below take the template parameter \<^verbatim>\<open>balanced\<close> as their first argument \<open>bal\<close> and
  never read or write these two fields when it is \<open>False\<close>, so that an unbalanced node
  always carries the initial values \<open>0\<close> and \<open>[]\<close>.

  Every node is owned by exactly one slot (the root field or one child field): the
  code never stores a node pointer in two places, so the node graph is a tree and is
  embedded as a value.
\<close>

datatype ('k, 'v) nodeptr =
    Null
  | Node "('k, 'v) nodeptr" 'k 'v int "('k \<times> 'v) list" "('k, 'v) nodeptr"

type_synonym size_t = "64 word"

text \<open>
  The private fields of \<^verbatim>\<open>Tree\<close> (\<^verbatim>\<open>tree.hpp\<close>). \<^verbatim>\<open>count\<close> is a \<^verbatim>\<open>size_t\<close> that the code
  increments and decrements, so it is a 64-bit word. The cached \<^verbatim>\<open>height\<close> is only ever
  assigned the result of the recursive height computation, which is bounded by the
  number of nodes; it is a natural number.
\<close>

record ('k, 'v) tree =
  root :: "('k, 'v) nodeptr"
  allowDuplicateKeys :: bool
  count :: size_t
  height :: nat
  invalidateHeight :: bool

text \<open>\<^verbatim>\<open>Tree(bool allowDuplicateKeys)\<close> with the default member initialisers.\<close>

definition Tree :: "bool \<Rightarrow> ('k, 'v) tree" where
  "Tree allow = \<lparr>root = Null, allowDuplicateKeys = allow, count = 0, height = 0,
                 invalidateHeight = False\<rparr>"

definition isDuplicationAllowed :: "('k, 'v) tree \<Rightarrow> bool" where
  "isDuplicationAllowed t = allowDuplicateKeys t"

definition isEmpty :: "('k, 'v) tree \<Rightarrow> bool" where
  "isEmpty t = (root t = Null)"

definition clear :: "('k, 'v) tree \<Rightarrow> ('k, 'v) tree" where
  "clear t = t\<lparr>root := Null, count := 0, height := 0, invalidateHeight := False\<rparr>"

definition getCount :: "('k, 'v) tree \<Rightarrow> size_t" where
  "getCount t = count t"

section \<open>Height and its cache\<close>

text \<open>
  \<^verbatim>\<open>getHeight(NodePtr node)\<close>: the recursive computation. Its side effect on the cache
  happens only when \<^verbatim>\<open>node == root\<close>; that case is \<open>getHeight\<close> below, the only caller
  that passes the root.
\<close>

fun getHeight_node :: "('k, 'v) nodeptr \<Rightarrow> nat" where
  "getHeight_node Null = 0"
| "getHeight_node (Node l k v bf ds r) =
     (let leftHeight = getHeight_node l; rightHeight = getHeight_node r
      in 1 + (if leftHeight \<ge> rightHeight then leftHeight else rightHeight))"

text \<open>\<^verbatim>\<open>getHeight()\<close>: recomputes only when the invalidation flag is set.\<close>

definition getHeight :: "('k, 'v) tree \<Rightarrow> nat \<times> ('k, 'v) tree" where
  "getHeight t =
     (if invalidateHeight t
      then (let h = getHeight_node (root t)
            in (h, t\<lparr>height := h, invalidateHeight := False\<rparr>))
      else (height t, t))"

section \<open>Balancer\<close>

text \<open>
  A \<^verbatim>\<open>NodePtr *\<close> into the tree (the address of the root field or of a child field) is
  a path from the root.
\<close>

datatype dir = L | R

text \<open>
  \<^verbatim>\<open>updateBalanceFactors\<close>: rewrites every balance factor and returns the slot of an
  imbalanced node: the one found in the left subtree if any, else the one found in the
  right subtree, else the node itself when its own factor is out of range.
\<close>

fun updateBalanceFactors ::
  "('k, 'v) nodeptr \<Rightarrow> ('k, 'v) nodeptr \<times> dir list option" where
  "updateBalanceFactors Null = (Null, None)"
| "updateBalanceFactors (Node l k v bf ds r) =
     (let bf' = int (getHeight_node r) - int (getHeight_node l);
          imbalanced = (if \<bar>bf'\<bar> > 1 then Some [] else None);
          (l', leftImbalanced) = updateBalanceFactors l;
          (r', rightImbalanced) = updateBalanceFactors r
      in (Node l' k v bf' ds r',
          (case leftImbalanced of
             Some p \<Rightarrow> Some (L # p)
           | None \<Rightarrow> (case rightImbalanced of
                        Some p \<Rightarrow> Some (R # p)
                      | None \<Rightarrow> imbalanced))))"

text \<open>
  The rotations relink three pointers. The source dereferences the child that is
  promoted; \<open>balance\<close> calls a rotation only on a node whose freshly computed factor
  says that child exists (lemma \<open>balance_rotations_defined\<close> below), and the remaining
  equations are never used by it.
\<close>

fun rotateLeft :: "('k, 'v) nodeptr \<Rightarrow> ('k, 'v) nodeptr" where
  "rotateLeft (Node t1 xk xv xbf xds (Node t2 yk yv ybf yds z)) =
     Node (Node t1 xk xv xbf xds t2) yk yv ybf yds z"
| "rotateLeft n = n"

fun rotateRight :: "('k, 'v) nodeptr \<Rightarrow> ('k, 'v) nodeptr" where
  "rotateRight (Node (Node z yk yv ybf yds t2) xk xv xbf xds t1) =
     Node z yk yv ybf yds (Node t2 xk xv xbf xds t1)"
| "rotateRight n = n"

fun balanceFactor :: "('k, 'v) nodeptr \<Rightarrow> int" where
  "balanceFactor Null = 0"
| "balanceFactor (Node l k v bf ds r) = bf"

text \<open>The body of \<^verbatim>\<open>if(imbalancedNode) { ... }\<close> in \<^verbatim>\<open>balance\<close>, at the imbalanced slot.\<close>

fun rotateImbalanced :: "('k, 'v) nodeptr \<Rightarrow> ('k, 'v) nodeptr" where
  "rotateImbalanced Null = Null"
| "rotateImbalanced (Node l k v bf ds r) =
     (if bf > 1
      then rotateLeft (Node l k v bf ds (if balanceFactor r < 0 then rotateRight r else r))
      else rotateRight (Node (if balanceFactor l > 0 then rotateLeft l else l) k v bf ds r))"

text \<open>Assignment through a slot pointer: apply \<open>f\<close> to the subtree a path leads to.\<close>

fun at_slot :: "dir list \<Rightarrow> (('k, 'v) nodeptr \<Rightarrow> ('k, 'v) nodeptr) \<Rightarrow>
                ('k, 'v) nodeptr \<Rightarrow> ('k, 'v) nodeptr" where
  "at_slot [] f n = f n"
| "at_slot (d # p) f Null = Null"
| "at_slot (L # p) f (Node l k v bf ds r) = Node (at_slot p f l) k v bf ds r"
| "at_slot (R # p) f (Node l k v bf ds r) = Node l k v bf ds (at_slot p f r)"

definition balance :: "('k, 'v) nodeptr \<Rightarrow> ('k, 'v) nodeptr" where
  "balance rt =
     (let (rt1, imbalancedNode) = updateBalanceFactors rt;
          rt2 = (case imbalancedNode of
                   None \<Rightarrow> rt1
                 | Some p \<Rightarrow> at_slot p rotateImbalanced rt1)
      in fst (updateBalanceFactors rt2))"

section \<open>Insertion\<close>

text \<open>\<^verbatim>\<open>Node<KT, VT, true>::addDuplicateItem\<close>: appends iff the keys are equal.\<close>

fun addDuplicateItem :: "('k, 'v) nodeptr \<Rightarrow> 'k \<Rightarrow> 'v \<Rightarrow> ('k, 'v) nodeptr \<times> bool" where
  "addDuplicateItem Null key val = (Null, False)"
| "addDuplicateItem (Node l k v bf ds r) key val =
     (if k = key then (Node l k v bf (ds @ [(key, val)]) r, True)
      else (Node l k v bf ds r, False))"

text \<open>
  The \<^verbatim>\<open>while(*current)\<close> loop of \<^verbatim>\<open>insert(KT key)\<close> and \<^verbatim>\<open>insert(KT key, T value)\<close>
  together with the statement \<^verbatim>\<open>if(!isDuplicateKey || !balanced) { *current = make_shared... }\<close>
  that follows it. The two source functions differ only in the value they pass to the
  node constructor and to \<^verbatim>\<open>addDuplicateItem\<close>; the key-only one is the instance at
  \<open>unit\<close>. The slot pointer \<^verbatim>\<open>current\<close> is the position of the recursion, and the
  argument \<open>isDuplicateKey\<close> carries the flag of that name. The result is the subtree
  now held by the slot, \<^verbatim>\<open>inserted\<close> and \<^verbatim>\<open>isDuplicateKey\<close>.

  Where the loop leaves by \<^verbatim>\<open>break\<close> at an equal key with duplicates not allowed,
  \<^verbatim>\<open>*current\<close> is still the equal node; the statement after the loop then runs whenever
  \<^verbatim>\<open>!balanced\<close> holds and assigns a fresh childless node to that slot.
\<close>

fun insert_loop ::
  "bool \<Rightarrow> bool \<Rightarrow> 'k::linorder \<Rightarrow> 'v \<Rightarrow> bool \<Rightarrow> ('k, 'v) nodeptr \<Rightarrow>
   ('k, 'v) nodeptr \<times> bool \<times> bool" where
  "insert_loop bal allow key val isDuplicateKey Null =
     (if \<not> isDuplicateKey \<or> \<not> bal
      then (Node Null key val 0 [] Null, True, isDuplicateKey)
      else (Null, False, isDuplicateKey))"
| "insert_loop bal allow key val isDuplicateKey (Node l k v bf ds r) =
     (if key = k then
        (if \<not> allow then
           (if \<not> bal then (Node Null key val 0 [] Null, True, True)
            else (Node l k v bf ds r, False, True))
         else if bal then
           (let (n', added) = addDuplicateItem (Node l k v bf ds r) key val
            in (n', added, True))
         else
           (let (l', inserted, dup) = insert_loop bal allow key val True l
            in (Node l' k v bf ds r, inserted, dup)))
      else if key < k then
        (let (l', inserted, dup) = insert_loop bal allow key val isDuplicateKey l
         in (Node l' k v bf ds r, inserted, dup))
      else
        (let (r', inserted, dup) = insert_loop bal allow key val isDuplicateKey r
         in (Node l k v bf ds r', inserted, dup)))"

text \<open>
  \<^verbatim>\<open>insert\<close>: the loop, then the block \<^verbatim>\<open>if(inserted) { ++count; ... }\<close>. In the
  balanced instance the flag \<^verbatim>\<open>invalidateHeight\<close> is assigned \<^verbatim>\<open>!isDuplicateKey\<close>.
\<close>

definition insert_item ::
  "bool \<Rightarrow> ('k::linorder, 'v) tree \<Rightarrow> 'k \<Rightarrow> 'v \<Rightarrow> bool \<times> ('k, 'v) tree" where
  "insert_item bal t key val =
     (let (rt, inserted, isDuplicateKey) =
            insert_loop bal (allowDuplicateKeys t) key val False (root t);
          t1 = t\<lparr>root := rt\<rparr>
      in if inserted then
           (let t2 = t1\<lparr>count := count t1 + 1\<rparr>
            in if bal then
                 (let t3 = t2\<lparr>invalidateHeight := \<not> isDuplicateKey\<rparr>
                  in if invalidateHeight t3
                     then (True, t3\<lparr>root := balance (root t3)\<rparr>)
                     else (True, t3))
               else (True, t2\<lparr>invalidateHeight := True\<rparr>))
         else (False, t1))"

text \<open>\<^verbatim>\<open>insert(const InsertInputVector &items)\<close>: counts the successful insertions.\<close>

fun insert_items ::
  "bool \<Rightarrow> ('k::linorder, 'v) tree \<Rightarrow> ('k \<times> 'v) list \<Rightarrow> size_t \<times> ('k, 'v) tree" where
  "insert_items bal t [] = (0, t)"
| "insert_items bal t ((key, val) # items) =
     (let (inserted, t1) = insert_item bal t key val;
          (cnt, t2) = insert_items bal t1 items
      in ((if inserted then cnt + 1 else cnt), t2))"

section \<open>Removal\<close>

text \<open>
  What the model reports where the source has undefined behaviour.
  \<open>UseAfterFree\<close>: a read through a pointer into a node that has been destroyed.
  \<open>BufferOverrun\<close>: a write past the end of an object or of a vector.
  \<open>ShiftOverflow\<close>: \<^verbatim>\<open>1 << level\<close> computed in \<^verbatim>\<open>int\<close> with \<^verbatim>\<open>level >= 31\<close>.
\<close>

datatype error = UseAfterFree | BufferOverrun | ShiftOverflow

text \<open>\<^verbatim>\<open>Node<KT, VT, true>::getCount()\<close>: \<^verbatim>\<open>1 + duplicates.size()\<close>.\<close>

fun getCount_node :: "('k, 'v) nodeptr \<Rightarrow> size_t" where
  "getCount_node Null = 0"
| "getCount_node (Node l k v bf ds r) = 1 + of_nat (length ds)"

text \<open>
  \<^verbatim>\<open>removeDoubleChildNode\<close> walks from the right child down the left links, unlinks the
  left-most node of the right subtree (its right child takes its place) and puts it
  into the slot, with the removed node's left subtree and the remaining right subtree
  as children. When the right child has no left child the right child itself moves up.
  \<open>splitLeftmost\<close> returns the fields of the left-most node and the subtree without it.
\<close>

fun splitLeftmost ::
  "('k, 'v) nodeptr \<Rightarrow> ('k \<times> 'v \<times> int \<times> ('k \<times> 'v) list) option \<times> ('k, 'v) nodeptr" where
  "splitLeftmost Null = (None, Null)"
| "splitLeftmost (Node Null k v bf ds r) = (Some (k, v, bf, ds), r)"
| "splitLeftmost (Node l k v bf ds r) =
     (let (m, l') = splitLeftmost l in (m, Node l' k v bf ds r))"

fun removeDoubleChildNode :: "('k, 'v) nodeptr \<Rightarrow> ('k, 'v) nodeptr" where
  "removeDoubleChildNode Null = Null"
| "removeDoubleChildNode (Node l k v bf ds r) =
     (case splitLeftmost r of
        (Some (mk, mv, mbf, mds), r') \<Rightarrow> Node l mk mv mbf mds r'
      | (None, r') \<Rightarrow> Node l k v bf ds r)"

fun removeSingleChildNode :: "('k, 'v) nodeptr \<Rightarrow> ('k, 'v) nodeptr" where
  "removeSingleChildNode Null = Null"
| "removeSingleChildNode (Node l k v bf ds r) = (if l \<noteq> Null then l else r)"

fun removeChildlessNode :: "('k, 'v) nodeptr \<Rightarrow> ('k, 'v) nodeptr" where
  "removeChildlessNode n = Null"

fun removeNode :: "('k, 'v) nodeptr \<Rightarrow> ('k, 'v) nodeptr" where
  "removeNode Null = Null"
| "removeNode (Node l k v bf ds r) =
     (if l \<noteq> Null \<and> r \<noteq> Null then removeDoubleChildNode (Node l k v bf ds r)
      else if l \<noteq> Null \<or> r \<noteq> Null then removeSingleChildNode (Node l k v bf ds r)
      else removeChildlessNode (Node l k v bf ds r))"

text \<open>
  The loop of \<^verbatim>\<open>remove(KT key, bool all)\<close>. The result is the subtree now held by the
  slot, \<^verbatim>\<open>deletedCount\<close>, and whether a node was removed (the code then sets
  \<^verbatim>\<open>invalidateHeight\<close> and, when balanced, calls \<^verbatim>\<open>balance()\<close>).

  In the unbalanced instance the code saves \<^verbatim>\<open>currentLeft = &(*current)->left\<close>, a pointer
  to a field of the node it is about to remove. \<^verbatim>\<open>removeNode\<close> overwrites the only
  owning pointer of that node, which destroys it. With \<^verbatim>\<open>all && allowDuplicateKeys\<close> the
  loop then continues with \<^verbatim>\<open>current = currentLeft\<close> and evaluates \<^verbatim>\<open>*current\<close>: a read
  of a destroyed object.
\<close>

fun remove_loop ::
  "bool \<Rightarrow> bool \<Rightarrow> 'k::linorder \<Rightarrow> bool \<Rightarrow> ('k, 'v) nodeptr \<Rightarrow>
   error + (('k, 'v) nodeptr \<times> size_t \<times> bool)" where
  "remove_loop bal allow key all Null = Inr (Null, 0, False)"
| "remove_loop bal allow key all (Node l k v bf ds r) =
     (if k = key then
        (if bal then
           (if all \<or> ds = []
            then Inr (removeNode (Node l k v bf ds r),
                      getCount_node (Node l k v bf ds r), True)
            else Inr (Node l (fst (hd ds)) (snd (hd ds)) bf (tl ds) r, 1, False))
         else
           (if \<not> all \<or> \<not> allow
            then Inr (removeNode (Node l k v bf ds r), 1, True)
            else Inl UseAfterFree))
      else if key < k then
        (case remove_loop bal allow key all l of
           Inl e \<Rightarrow> Inl e
         | Inr (l', deleted, removed) \<Rightarrow> Inr (Node l' k v bf ds r, deleted, removed))
      else
        (case remove_loop bal allow key all r of
           Inl e \<Rightarrow> Inl e
         | Inr (r', deleted, removed) \<Rightarrow> Inr (Node l k v bf ds r', deleted, removed)))"

definition remove_key ::
  "bool \<Rightarrow> ('k::linorder, 'v) tree \<Rightarrow> 'k \<Rightarrow> bool \<Rightarrow> error + (size_t \<times> ('k, 'v) tree)" where
  "remove_key bal t key all =
     (case remove_loop bal (allowDuplicateKeys t) key all (root t) of
        Inl e \<Rightarrow> Inl e
      | Inr (rt, deletedCount, removed) \<Rightarrow>
          Inr (deletedCount,
               t\<lparr>root := (if removed \<and> bal then balance rt else rt),
                 count := count t - deletedCount,
                 invalidateHeight := (if removed then True else invalidateHeight t)\<rparr>))"

text \<open>\<^verbatim>\<open>remove(const KeyVector &keys, bool all)\<close>: passes \<^verbatim>\<open>all\<close> on to each removal.\<close>

fun remove_keys ::
  "bool \<Rightarrow> ('k::linorder, 'v) tree \<Rightarrow> 'k list \<Rightarrow> bool \<Rightarrow>
   error + (size_t \<times> ('k, 'v) tree)" where
  "remove_keys bal t [] all = Inr (0, t)"
| "remove_keys bal t (key # keys) all =
     (case remove_key bal t key all of
        Inl e \<Rightarrow> Inl e
      | Inr (d, t1) \<Rightarrow>
          (case remove_keys bal t1 keys all of
             Inl e \<Rightarrow> Inl e
           | Inr (d', t2) \<Rightarrow> Inr (d + d', t2)))"

text \<open>
  The \<^verbatim>\<open>for\<close> loop over \<^verbatim>\<open>duplicates\<close> in \<^verbatim>\<open>remove(KT key, T value, bool all)\<close>: erases
  the entries whose value matches, only the first one unless \<^verbatim>\<open>all\<close>; returns the list
  and the number of entries erased.
\<close>

fun eraseDuplicates :: "'v \<Rightarrow> bool \<Rightarrow> ('k \<times> 'v) list \<Rightarrow> ('k \<times> 'v) list \<times> size_t" where
  "eraseDuplicates val all [] = ([], 0)"
| "eraseDuplicates val all (x # xs) =
     (if snd x = val then
        (if \<not> all then (xs, 1)
         else (let (xs', m) = eraseDuplicates val all xs in (xs', m + 1)))
      else (let (xs', m) = eraseDuplicates val all xs in (x # xs', m)))"

text \<open>Number of items held by a subtree: every node and every entry of its list.\<close>

fun live_items :: "('k, 'v) nodeptr \<Rightarrow> nat" where
  "live_items Null = 0"
| "live_items (Node l k v bf ds r) = live_items l + 1 + length ds + live_items r"

text \<open>
  The loop of \<^verbatim>\<open>remove(KT key, T value, bool all)\<close>, with \<^verbatim>\<open>deletedCount\<close> and \<^verbatim>\<open>count\<close>
  threaded through. In the balanced instance \<^verbatim>\<open>continue\<close> re-enters the loop at the same
  slot after the front of \<^verbatim>\<open>duplicates\<close> has been moved into the node; when the list is
  empty and the value matches, \<^verbatim>\<open>deletedCount\<close> is assigned (not increased by) the
  node's count.
\<close>

function removeKV_loop ::
  "bool \<Rightarrow> bool \<Rightarrow> 'k::linorder \<Rightarrow> 'v \<Rightarrow> bool \<Rightarrow> size_t \<Rightarrow> size_t \<Rightarrow> ('k, 'v) nodeptr \<Rightarrow>
   error + (('k, 'v) nodeptr \<times> size_t \<times> size_t \<times> bool)" where
  "removeKV_loop bal allow key val all d c Null = Inr (Null, d, c, False)"
| "removeKV_loop bal allow key val all d c (Node l k v bf ds r) =
     (if k = key then
        (if bal then
           (if ds = [] then
              (if v = val
               then Inr (removeNode (Node l k v bf ds r),
                         getCount_node (Node l k v bf ds r),
                         c - getCount_node (Node l k v bf ds r), True)
               else Inr (Node l k v bf ds r, d, c, False))
            else if v = val then
              (if \<not> all
               then Inr (Node l (fst (hd ds)) (snd (hd ds)) bf (tl ds) r, d + 1, c - 1, False)
               else removeKV_loop bal allow key val all (d + 1) (c - 1)
                      (Node l (fst (hd ds)) (snd (hd ds)) bf (tl ds) r))
            else
              (let (ds', m) = eraseDuplicates val all ds
               in Inr (Node l k v bf ds' r, d + m, c - m, False)))
         else
           (if v \<noteq> val \<and> \<not> allow then Inr (Node l k v bf ds r, d, c, False)
            else if v \<noteq> val then
              (case removeKV_loop bal allow key val all d c l of
                 Inl e \<Rightarrow> Inl e
               | Inr (l', d', c', removed) \<Rightarrow> Inr (Node l' k v bf ds r, d', c', removed))
            else if \<not> all \<or> \<not> allow
            then Inr (removeNode (Node l k v bf ds r), d + 1, c - 1, True)
            else Inl UseAfterFree))
      else if key < k then
        (case removeKV_loop bal allow key val all d c l of
           Inl e \<Rightarrow> Inl e
         | Inr (l', d', c', removed) \<Rightarrow> Inr (Node l' k v bf ds r, d', c', removed))
      else
        (case removeKV_loop bal allow key val all d c r of
           Inl e \<Rightarrow> Inl e
         | Inr (r', d', c', removed) \<Rightarrow> Inr (Node l k v bf ds r', d', c', removed)))"
  by pat_completeness auto
termination
  by (relation "measure (\<lambda>(bal, allow, key, val, all, d, c, n). live_items n)")
     (auto simp: neq_Nil_conv)

definition remove_kv ::
  "bool \<Rightarrow> ('k::linorder, 'v) tree \<Rightarrow> 'k \<Rightarrow> 'v \<Rightarrow> bool \<Rightarrow>
   error + (size_t \<times> ('k, 'v) tree)" where
  "remove_kv bal t key val all =
     (case removeKV_loop bal (allowDuplicateKeys t) key val all 0 (count t) (root t) of
        Inl e \<Rightarrow> Inl e
      | Inr (rt, deletedCount, c, removed) \<Rightarrow>
          Inr (deletedCount,
               t\<lparr>root := (if removed \<and> bal then balance rt else rt),
                 count := c,
                 invalidateHeight := (if removed then True else invalidateHeight t)\<rparr>))"

text \<open>
  \<^verbatim>\<open>remove(const std::vector<std::pair<KT, VT>> &pairs, bool all)\<close>: the body calls
  \<^verbatim>\<open>remove(pair.first, pair.second)\<close>, so each removal runs with the default
  \<^verbatim>\<open>all = false\<close>.
\<close>

fun remove_pairs ::
  "bool \<Rightarrow> ('k::linorder, 'v) tree \<Rightarrow> ('k \<times> 'v) list \<Rightarrow> bool \<Rightarrow>
   error + (size_t \<times> ('k, 'v) tree)" where
  "remove_pairs bal t [] all = Inr (0, t)"
| "remove_pairs bal t ((key, val) # pairs) all =
     (case remove_kv bal t key val False of
        Inl e \<Rightarrow> Inl e
      | Inr (d, t1) \<Rightarrow>
          (case remove_pairs bal t1 pairs all of
             Inl e \<Rightarrow> Inl e
           | Inr (d', t2) \<Rightarrow> Inr (d + d', t2)))"

section \<open>Counting queries\<close>

text \<open>\<^verbatim>\<open>getCount(KT key)\<close>.\<close>

fun getCount_key_loop :: "bool \<Rightarrow> bool \<Rightarrow> 'k::linorder \<Rightarrow> ('k, 'v) nodeptr \<Rightarrow> size_t" where
  "getCount_key_loop bal allow key Null = 0"
| "getCount_key_loop bal allow key (Node l k v bf ds r) =
     (if k = key then
        (if bal then getCount_node (Node l k v bf ds r)
         else if allow then 1 + getCount_key_loop bal allow key l
         else 1)
      else if key < k then getCount_key_loop bal allow key l
      else getCount_key_loop bal allow key r)"

definition getCount_key :: "bool \<Rightarrow> ('k::linorder, 'v) tree \<Rightarrow> 'k \<Rightarrow> size_t" where
  "getCount_key bal t key = getCount_key_loop bal (allowDuplicateKeys t) key (root t)"

section \<open>Extraction\<close>

text \<open>\<^verbatim>\<open>getSortedKeys(NodePtr node, bool reverse)\<close> pushes \<^verbatim>\<open>node->key\<close> only.\<close>

fun getSortedKeys_node :: "('k, 'v) nodeptr \<Rightarrow> bool \<Rightarrow> 'k list" where
  "getSortedKeys_node Null reverse = []"
| "getSortedKeys_node (Node l k v bf ds r) reverse =
     (let leftKeys = getSortedKeys_node l reverse;
          rightKeys = getSortedKeys_node r reverse
      in if reverse then rightKeys @ [k] @ leftKeys else leftKeys @ [k] @ rightKeys)"

definition getSortedKeys :: "('k, 'v) tree \<Rightarrow> bool \<Rightarrow> 'k list" where
  "getSortedKeys t reverse = getSortedKeys_node (root t) reverse"

text \<open>
  \<^verbatim>\<open>getNodesAtLevel(level, prevNodes)\<close>. The vector \<^verbatim>\<open>levelNodes\<close> has \<^verbatim>\<open>1 << level\<close> null
  entries. For \<^verbatim>\<open>level > 0\<close> the code walks \<^verbatim>\<open>prevNodes\<close> once for every \<^verbatim>\<open>i\<close> from
  \<^verbatim>\<open>startLevel\<close> to \<^verbatim>\<open>level\<close> and, with a running index, writes the two children of every
  non-null entry and skips two places for a null entry. \<open>Some\<close> is a written place,
  \<open>None\<close> a skipped one.
\<close>

fun childSlots :: "('k, 'v) nodeptr \<Rightarrow> ('k, 'v) nodeptr option list" where
  "childSlots Null = [None, None]"
| "childSlots (Node l k v bf ds r) = [Some l, Some r]"

definition getNodesAtLevel ::
  "('k, 'v) nodeptr \<Rightarrow> nat \<Rightarrow> ('k, 'v) nodeptr list \<Rightarrow> error + ('k, 'v) nodeptr list" where
  "getNodesAtLevel rt level prevNodes =
     (if level \<ge> 31 then Inl ShiftOverflow
      else if level = 0 then Inr [rt]
      else
        (let startLevel = (if prevNodes = [] then 1 else level);
             prev = (if prevNodes = [] then [rt] else prevNodes);
             places = concat (replicate (level + 1 - startLevel) (concat (map childSlots prev)))
         in if list_ex (\<lambda>x. x \<noteq> None) (drop (2 ^ level) places) then Inl BufferOverrun
            else Inr (map (\<lambda>x. case x of None \<Rightarrow> Null | Some n \<Rightarrow> n)
                        (take (2 ^ level) (places @ replicate (2 ^ level) None)))))"

text \<open>What \<^verbatim>\<open>getItems\<close> pushes for one entry of a level.\<close>

fun node_items :: "bool \<Rightarrow> ('k, 'v) nodeptr \<Rightarrow> ('k \<times> 'v) list" where
  "node_items bal Null = []"
| "node_items bal (Node l k v bf ds r) = (k, v) # (if bal then ds else [])"

text \<open>
  The loop \<^verbatim>\<open>for(auto level = 0; level < height; ++level)\<close> of \<^verbatim>\<open>getItems\<close>; the fourth
  argument is \<^verbatim>\<open>height - level\<close>.
\<close>

fun getItems_levels ::
  "bool \<Rightarrow> ('k, 'v) nodeptr \<Rightarrow> nat \<Rightarrow> nat \<Rightarrow> ('k, 'v) nodeptr list \<Rightarrow>
   error + ('k \<times> 'v) list" where
  "getItems_levels bal rt level 0 nodes = Inr []"
| "getItems_levels bal rt level (Suc n) nodes =
     (case getNodesAtLevel rt level nodes of
        Inl e \<Rightarrow> Inl e
      | Inr nodes' \<Rightarrow>
          (case getItems_levels bal rt (Suc level) n nodes' of
             Inl e \<Rightarrow> Inl e
           | Inr rest \<Rightarrow> Inr (concat (map (node_items bal) nodes') @ rest)))"

text \<open>
  \<^verbatim>\<open>getItems()\<close> takes the number of levels from \<^verbatim>\<open>getHeight()\<close>, that is from the cache
  unless the invalidation flag is set. It is \<^verbatim>\<open>const\<close>, but the cache is \<^verbatim>\<open>mutable\<close>: the
  tree is returned with the cache as \<^verbatim>\<open>getHeight()\<close> left it.
\<close>

definition getItems ::
  "bool \<Rightarrow> ('k, 'v) tree \<Rightarrow> (error + ('k \<times> 'v) list) \<times> ('k, 'v) tree" where
  "getItems bal t =
     (if root t \<noteq> Null
      then (let (h, t') = getHeight t
            in (getItems_levels bal (root t') 0 h [], t'))
      else (Inr [], t))"

section \<open>Construction from items, copy and assignment\<close>

text \<open>\<^verbatim>\<open>Tree(const KeyVector &keys, bool)\<close> and \<^verbatim>\<open>Tree(const vector<pair<KT, VT>> &, bool)\<close>.\<close>

definition Tree_items :: "bool \<Rightarrow> ('k \<times> 'v) list \<Rightarrow> bool \<Rightarrow> ('k::linorder, 'v) tree" where
  "Tree_items bal items allow = snd (insert_items bal (Tree allow) items)"

text \<open>\<^verbatim>\<open>Tree(const Tree &other)\<close>: \<^verbatim>\<open>Tree(other.getItems(), other.isDuplicationAllowed())\<close>.\<close>

definition Tree_copy :: "bool \<Rightarrow> ('k::linorder, 'v) tree \<Rightarrow> error + ('k, 'v) tree" where
  "Tree_copy bal other =
     (case fst (getItems bal other) of
        Inl e \<Rightarrow> Inl e
      | Inr items \<Rightarrow> Inr (Tree_items bal items (isDuplicationAllowed other)))"

text \<open>
  \<^verbatim>\<open>operator=(const Tree &other)\<close> for \<^verbatim>\<open>this != &other\<close>: \<^verbatim>\<open>clear(); insert(other.getItems());\<close>.
  The field \<^verbatim>\<open>allowDuplicateKeys\<close> of the destination is not assigned.
\<close>

definition copy_assign ::
  "bool \<Rightarrow> ('k::linorder, 'v) tree \<Rightarrow> ('k, 'v) tree \<Rightarrow> error + ('k, 'v) tree" where
  "copy_assign bal this other =
     (let t0 = clear this
      in case fst (getItems bal other) of
           Inl e \<Rightarrow> Inl e
         | Inr items \<Rightarrow> Inr (snd (insert_items bal t0 items)))"

section \<open>Binary persistence\<close>

text \<open>
  The persistence code is modelled for keys and values of fundamental type (the branch
  \<^verbatim>\<open>std::is_fundamental_v<T>\<close> of \<^verbatim>\<open>serializeVariable\<close> and \<^verbatim>\<open>deserializeVariable\<close>). Such a
  type is given by its \<^verbatim>\<open>sizeof\<close>, the object representation of a value and the value of
  an object representation. \<^verbatim>\<open>size_t\<close> is written in the byte order of the host,
  taken to be little-endian.
\<close>

type_synonym byte = "8 word"

record 'a fundamental =
  sizeof :: nat
  repr :: "'a \<Rightarrow> byte list"
  value_of :: "byte list \<Rightarrow> 'a"

text \<open>A tree without values (\<^verbatim>\<open>VT = void\<close>) stores \<open>()\<close>; no value is written or read.\<close>

datatype 'v value_type = VoidValue 'v | FundamentalValue "'v fundamental"

fun le_bytes :: "nat \<Rightarrow> nat \<Rightarrow> byte list" where
  "le_bytes 0 n = []"
| "le_bytes (Suc c) n = of_nat (n mod 256) # le_bytes c (n div 256)"

fun le_nat :: "byte list \<Rightarrow> nat" where
  "le_nat [] = 0"
| "le_nat (b # bs) = unat b + 256 * le_nat bs"

definition bool_t :: "bool fundamental" where
  "bool_t = \<lparr>sizeof = 1, repr = (\<lambda>b. [if b then 1 else 0]), value_of = (\<lambda>bs. hd bs \<noteq> 0)\<rparr>"

text \<open>\<^verbatim>\<open>int\<close>: four bytes, two's complement.\<close>

fun word_of_le :: "byte list \<Rightarrow> 32 word" where
  "word_of_le [] = 0"
| "word_of_le (b # bs) = ucast b + push_bit 8 (word_of_le bs)"

definition int_t :: "int fundamental" where
  "int_t = \<lparr>sizeof = 4,
            repr = (\<lambda>i. let w = (word_of_int i :: 32 word)
                        in [ucast w, ucast (drop_bit 8 w), ucast (drop_bit 16 w),
                            ucast (drop_bit 24 w)]),
            value_of = (\<lambda>bs. sint (word_of_le bs))\<rparr>"

text \<open>\<^verbatim>\<open>char\<close>: one byte.\<close>

definition char_t :: "byte fundamental" where
  "char_t = \<lparr>sizeof = 1, repr = (\<lambda>c. [c]), value_of = (\<lambda>bs. hd bs)\<rparr>"

text \<open>
  \<^verbatim>\<open>serializeVariable\<close>: the eight bytes of \<^verbatim>\<open>sizeof(var)\<close>, then the object representation.
  A failing write is a failure of the environment; the functions below give the bytes
  that reach the file when every write succeeds, the only case in which
  \<^verbatim>\<open>serialize\<close> returns \<^verbatim>\<open>true\<close>.
\<close>

definition serializeVariable :: "'a fundamental \<Rightarrow> 'a \<Rightarrow> byte list" where
  "serializeVariable ty var = le_bytes 8 (sizeof ty) @ repr ty var"

definition serialize_item :: "'k fundamental \<Rightarrow> 'v value_type \<Rightarrow> 'k \<times> 'v \<Rightarrow> byte list" where
  "serialize_item kt vt item =
     serializeVariable kt (fst item) @
     (case vt of VoidValue u \<Rightarrow> [] | FundamentalValue ty \<Rightarrow> serializeVariable ty (snd item))"

definition serialize_stream ::
  "'k fundamental \<Rightarrow> 'v value_type \<Rightarrow> bool \<Rightarrow> ('k \<times> 'v) list \<Rightarrow> byte list" where
  "serialize_stream kt vt allow items =
     serializeVariable bool_t allow @ concat (map (serialize_item kt vt) items)"

text \<open>\<^verbatim>\<open>serialize\<close>: the flag, then every item of \<^verbatim>\<open>getItems()\<close>.\<close>

definition serialize ::
  "bool \<Rightarrow> 'k fundamental \<Rightarrow> 'v value_type \<Rightarrow> ('k, 'v) tree \<Rightarrow>
   (error + byte list) \<times> ('k, 'v) tree" where
  "serialize bal kt vt t =
     (case getItems bal t of
        (Inl e, t') \<Rightarrow> (Inl e, t')
      | (Inr items, t') \<Rightarrow> (Inr (serialize_stream kt vt (allowDuplicateKeys t) items), t'))"

text \<open>
  A \<^verbatim>\<open>std::ifstream\<close> opened on a file: the bytes not yet read and \<^verbatim>\<open>good()\<close>.
  \<^verbatim>\<open>read(p, n)\<close> does nothing on a stream that is not good; it delivers \<open>n\<close> bytes when
  that many are left, and otherwise delivers what is left and sets \<^verbatim>\<open>eofbit | failbit\<close>.
\<close>

record istream =
  buf :: "byte list"
  good :: bool

definition read :: "nat \<Rightarrow> istream \<Rightarrow> byte list \<times> istream" where
  "read n s =
     (if \<not> good s then ([], s)
      else if n \<le> length (buf s) then (take n (buf s), s\<lparr>buf := drop n (buf s)\<rparr>)
      else (buf s, s\<lparr>buf := [], good := False\<rparr>))"

text \<open>
  \<^verbatim>\<open>deserializeVariable\<close> on a variable whose object representation is \<open>var\<close>:
  the bytes delivered overwrite the front of the variable. The count \<^verbatim>\<open>dataSize\<close> comes
  from the file and is not compared with \<^verbatim>\<open>sizeof(var)\<close>. It is a \<^verbatim>\<open>size_t\<close> passed to
  \<^verbatim>\<open>read\<close> as the signed \<^verbatim>\<open>std::streamsize\<close>: a count of \<open>2 ^ 63\<close> or more is negative
  there, and \<^verbatim>\<open>read\<close> then delivers no byte and sets \<^verbatim>\<open>failbit\<close>. When the read of the
  size fails, the second read is a no-op on the failed stream. The result is the
  variable, the stream and \<^verbatim>\<open>inputFile.good()\<close>.
\<close>

text \<open>
  The sign of the eight little-endian bytes of a \<^verbatim>\<open>size_t\<close> read as \<^verbatim>\<open>std::streamsize\<close>:
  the top bit of the last byte.
\<close>

definition negative_streamsize :: "byte list \<Rightarrow> bool" where
  "negative_streamsize sizeBytes =
     (case drop 7 sizeBytes of [] \<Rightarrow> False | b # bs \<Rightarrow> 128 \<le> b)"

definition deserializeVariable ::
  "'a fundamental \<Rightarrow> istream \<Rightarrow> byte list \<Rightarrow> error + (byte list \<times> istream \<times> bool)" where
  "deserializeVariable ty s var =
     (let (sizeBytes, s1) = read 8 s
      in if \<not> good s1 then Inr (var, s1, False)
         else
           (let dataSize = le_nat sizeBytes
            in if negative_streamsize sizeBytes
               then Inr (var, s1\<lparr>good := False\<rparr>, False)
               else
                 (let (bytes, s2) = read dataSize s1
                  in if length bytes > sizeof ty then Inl BufferOverrun
                     else Inr (bytes @ drop (length bytes) var, s2, good s2))))"

text \<open>
  The loop \<^verbatim>\<open>while(!failedRead)\<close> of \<^verbatim>\<open>deserialize\<close>. A failed read of the key leaves the
  loop with \<^verbatim>\<open>failedRead\<close> still false; a failed read of the value sets it. The variable
  \<^verbatim>\<open>key\<close> lives across iterations; each value is read into a fresh value-initialised
  object. The result is \<^verbatim>\<open>items\<close> and \<^verbatim>\<open>failedRead\<close>.
\<close>

function deserialize_loop ::
  "'k fundamental \<Rightarrow> 'v value_type \<Rightarrow> istream \<Rightarrow> byte list \<Rightarrow> ('k \<times> 'v) list \<Rightarrow>
   error + (('k \<times> 'v) list \<times> bool)" where
  "deserialize_loop kt vt s key items =
     (case deserializeVariable kt s key of
        Inl e \<Rightarrow> Inl e
      | Inr (key', s1, ok) \<Rightarrow>
          if \<not> ok then Inr (items, False)
          else
            (case vt of
               VoidValue u \<Rightarrow> deserialize_loop kt vt s1 key' (items @ [(value_of kt key', u)])
             | FundamentalValue ty \<Rightarrow>
                 (case deserializeVariable ty s1 (replicate (sizeof ty) 0) of
                    Inl e \<Rightarrow> Inl e
                  | Inr (val, s2, okv) \<Rightarrow>
                      if \<not> okv then Inr (items, True)
                      else deserialize_loop kt vt s2 key'
                             (items @ [(value_of kt key', value_of ty val)]))))"
  by pat_completeness auto
termination
proof (relation "measure (\<lambda>(kt, vt, s, key, items). length (buf s))")
  show "wf (measure (\<lambda>(kt, vt, s, key, items). length (buf s)))" by simp
next
  fix kt :: "'k fundamental" and vt :: "'v value_type" and s key items x2 key' y s1 ok u
  assume "deserializeVariable kt s key = Inr x2" "(key', y) = x2" "(s1, ok) = y" "\<not> \<not> ok"
  then show "((kt, vt, s1, key', items @ [(value_of kt key', u)]), kt, vt, s, key, items)
             \<in> measure (\<lambda>(kt, vt, s, key, items). length (buf s))"
    by (auto simp: deserializeVariable_def read_def Let_def split: if_splits prod.splits)
next
  fix kt :: "'k fundamental" and vt :: "'v value_type" and s key items x2 key' y s1 ok
    and ty :: "'v fundamental" and x2a val ya s2 okv
  assume "deserializeVariable kt s key = Inr x2" "(key', y) = x2" "(s1, ok) = y" "\<not> \<not> ok"
    "deserializeVariable ty s1 (replicate (sizeof ty) 0) = Inr x2a"
    "(val, ya) = x2a" "(s2, okv) = ya" "\<not> \<not> okv"
  then show "((kt, vt, s2, key', items @ [(value_of kt key', value_of ty val)]),
              kt, vt, s, key, items)
             \<in> measure (\<lambda>(kt, vt, s, key, items). length (buf s))"
    by (auto simp: deserializeVariable_def read_def Let_def split: if_splits prod.splits)
qed

declare deserialize_loop.simps [simp del]

text \<open>
  \<^verbatim>\<open>deserialize\<close> on a file that could be opened and holds \<open>bytes\<close>. \<open>flag0\<close> and
  \<open>key0\<close> are the indeterminate initial contents of the locals \<^verbatim>\<open>allowDuplicateKeys\<close>
  and \<^verbatim>\<open>key\<close>. On \<^verbatim>\<open>failedRead\<close> the default-constructed \<^verbatim>\<open>tree\<close> is returned, whose
  \<^verbatim>\<open>allowDuplicateKeys\<close> is \<^verbatim>\<open>true\<close>.
\<close>

definition deserialize ::
  "bool \<Rightarrow> 'k::linorder fundamental \<Rightarrow> 'v value_type \<Rightarrow> byte list \<Rightarrow> byte list \<Rightarrow> byte list \<Rightarrow>
   error + ('k, 'v) tree" where
  "deserialize bal kt vt bytes flag0 key0 =
     (case deserializeVariable bool_t \<lparr>buf = bytes, good = True\<rparr> flag0 of
        Inl e \<Rightarrow> Inl e
      | Inr (flag, s1, ok) \<Rightarrow>
          if \<not> ok then Inr (Tree True)
          else
            (case deserialize_loop kt vt s1 key0 [] of
               Inl e \<Rightarrow> Inl e
             | Inr (items, failedRead) \<Rightarrow>
                 if failedRead then Inr (Tree True)
                 else Inr (Tree_items bal items (value_of bool_t flag))))"

section \<open>Predicates used by the properties\<close>

text \<open>
  A value of a fundamental type whose object representation has \<^verbatim>\<open>sizeof\<close> bytes and
  reads back as the value; an item whose key and value are such (the value of an item
  of a tree without values is the fixed \<open>u\<close>).
\<close>

definition fundamental_ok :: "'a fundamental \<Rightarrow> 'a \<Rightarrow> bool" where
  "fundamental_ok ty x \<longleftrightarrow>
     sizeof ty < 2 ^ 63 \<and> length (repr ty x) = sizeof ty \<and> value_of ty (repr ty x) = x"

definition item_ok :: "'k fundamental \<Rightarrow> 'v value_type \<Rightarrow> 'k \<times> 'v \<Rightarrow> bool" where
  "item_ok kt vt item \<longleftrightarrow>
     fundamental_ok kt (fst item) \<and>
     (case vt of VoidValue u \<Rightarrow> snd item = u
              | FundamentalValue ty \<Rightarrow> fundamental_ok ty (snd item))"

text \<open>Every stored balance factor of a subtree is \<open>-1\<close>, \<open>0\<close> or \<open>1\<close>.\<close>

fun bf_ok :: "('k, 'v) nodeptr \<Rightarrow> bool" where
  "bf_ok Null = True"
| "bf_ok (Node l k v bf ds r) = (\<bar>bf\<bar> \<le> 1 \<and> bf_ok l \<and> bf_ok r)"

text \<open>Number of nodes of a subtree.\<close>

fun num_nodes :: "('k, 'v) nodeptr \<Rightarrow> nat" where
  "num_nodes Null = 0"
| "num_nodes (Node l k v bf ds r) = num_nodes l + 1 + num_nodes r"

text \<open>Number of entries held in the \<^verbatim>\<open>duplicates\<close> lists of a subtree.\<close>

fun num_duplicates :: "('k, 'v) nodeptr \<Rightarrow> nat" where
  "num_duplicates Null = 0"
| "num_duplicates (Node l k v bf ds r) = num_duplicates l + length ds + num_duplicates r"

text \<open>The subtree held by the slot a path leads to.\<close>

fun subtree_at :: "dir list \<Rightarrow> ('k, 'v) nodeptr \<Rightarrow> ('k, 'v) nodeptr" where
  "subtree_at [] n = n"
| "subtree_at (d # p) Null = Null"
| "subtree_at (L # p) (Node l k v bf ds r) = subtree_at p l"
| "subtree_at (R # p) (Node l k v bf ds r) = subtree_at p r"

text \<open>Every stored balance factor is the height of the right subtree minus the left one.\<close>

fun bf_exact :: "('k, 'v) nodeptr \<Rightarrow> bool" where
  "bf_exact Null = True"
| "bf_exact (Node l k v bf ds r) =
     (bf = int (getHeight_node r) - int (getHeight_node l) \<and> bf_exact l \<and> bf_exact r)"

text \<open>
  The children that \<^verbatim>\<open>balance()\<close> dereferences at an imbalanced node exist: the child on
  the heavy side, and the inner grandchild when that child leans the other way.
\<close>

fun rotations_defined :: "('k, 'v) nodeptr \<Rightarrow> bool" where
  "rotations_defined Null = False"
| "rotations_defined (Node l k v bf ds r) =
     (if bf > 1
      then (case r of
              Null \<Rightarrow> False
            | Node rl rk rv rbf rds rr \<Rightarrow> (if rbf < 0 then rl \<noteq> Null else True))
      else (case l of
              Null \<Rightarrow> False
            | Node ll lk lv lbf lds lr \<Rightarrow> (if lbf > 0 then lr \<noteq> Null else True)))"

text \<open>
  The keys held in the nodes themselves (each node's primary slot), and the keys of the
  entries held in the \<^verbatim>\<open>duplicates\<close> lists, each with its multiplicity.
\<close>

fun primary_keys :: "('k, 'v) nodeptr \<Rightarrow> 'k multiset" where
  "primary_keys Null = {#}"
| "primary_keys (Node l k v bf ds r) = add_mset k (primary_keys l + primary_keys r)"

fun duplicate_keys :: "('k, 'v) nodeptr \<Rightarrow> 'k multiset" where
  "duplicate_keys Null = {#}"
| "duplicate_keys (Node l k v bf ds r) =
     duplicate_keys l + mset (map fst ds) + duplicate_keys r"

text \<open>The same subtree with every \<^verbatim>\<open>duplicates\<close> list emptied.\<close>

fun without_duplicates :: "('k, 'v) nodeptr \<Rightarrow> ('k, 'v) nodeptr" where
  "without_duplicates Null = Null"
| "without_duplicates (Node l k v bf ds r) =
     Node (without_duplicates l) k v bf [] (without_duplicates r)"

text \<open>
  The key is met by the descent that \<^verbatim>\<open>insert\<close>, \<^verbatim>\<open>search\<close> and \<^verbatim>\<open>remove\<close> share: left
  when the key is smaller than the node's, right when it is larger.
\<close>

fun on_search_path :: "'k::linorder \<Rightarrow> ('k, 'v) nodeptr \<Rightarrow> bool" where
  "on_search_path key Null = False"
| "on_search_path key (Node l k v bf ds r) =
     (if k = key then True
      else if key < k then on_search_path key l
      else on_search_path key r)"

text \<open>
  The states a tree object of the balanced (\<open>bal\<close>) or unbalanced instance can be in:
  constructed empty, then changed by the public mutators. The other public operations
  are compositions of these (construction from items, copy, assignment, batch insertion
  and removal, deserialization), move the state unchanged, or change nothing but the
  height cache in the way \<^verbatim>\<open>getHeight()\<close> does.
\<close>

inductive reachable :: "bool \<Rightarrow> ('k::linorder, 'v) tree \<Rightarrow> bool" for bal :: bool where
  reach_Tree: "reachable bal (Tree allow)"
| reach_insert: "reachable bal t \<Longrightarrow> reachable bal (snd (insert_item bal t key val))"
| reach_remove_key:
    "reachable bal t \<Longrightarrow> remove_key bal t key all = Inr (d, t') \<Longrightarrow> reachable bal t'"
| reach_remove_kv:
    "reachable bal t \<Longrightarrow> remove_kv bal t key val all = Inr (d, t') \<Longrightarrow> reachable bal t'"
| reach_clear: "reachable bal t \<Longrightarrow> reachable bal (clear t)"
| reach_getHeight: "reachable bal t \<Longrightarrow> reachable bal (snd (getHeight t))"

section \<open>The rotations of the balancer are defined where it applies them\<close>

lemma height_updateBalanceFactors [simp]:
  "getHeight_node (fst (updateBalanceFactors n)) = getHeight_node n"
  by (induction n) (auto simp: Let_def split: prod.splits)

lemma bf_exact_updateBalanceFactors: "bf_exact (fst (updateBalanceFactors n))"
proof (induction n)
  case Null
  then show ?case by simp
next
  case (Node l k v bf ds r)
  obtain l' li where l: "updateBalanceFactors l = (l', li)" by (cases "updateBalanceFactors l")
  obtain r' ri where r: "updateBalanceFactors r = (r', ri)" by (cases "updateBalanceFactors r")
  have "getHeight_node l' = getHeight_node l" "getHeight_node r' = getHeight_node r"
    using height_updateBalanceFactors[of l] height_updateBalanceFactors[of r] l r by simp_all
  with Node l r show ?case by (simp add: Let_def)
qed

lemma bf_exact_subtree_at: "bf_exact n \<Longrightarrow> bf_exact (subtree_at p n)"
  by (induction p n rule: subtree_at.induct) auto

lemma imbalanced_slot:
  "updateBalanceFactors n = (n', Some p) \<Longrightarrow>
   \<exists>l k v bf ds r. subtree_at p n' = Node l k v bf ds r \<and> \<bar>bf\<bar> > 1"
proof (induction n arbitrary: n' p)
  case Null
  then show ?case by simp
next
  case (Node l k v bf ds r)
  obtain l' li where l: "updateBalanceFactors l = (l', li)" by (cases "updateBalanceFactors l")
  obtain r' ri where r: "updateBalanceFactors r = (r', ri)" by (cases "updateBalanceFactors r")
  show ?case
  proof (cases li)
    case (Some q)
    with Node.prems l r have "n' = Node l' k v (int (getHeight_node r) - int (getHeight_node l)) ds r'"
      "p = L # q" by (auto simp: Let_def)
    with Node.IH(1)[of l' q] l Some show ?thesis by simp
  next
    case None
    show ?thesis
    proof (cases ri)
      case (Some q)
      with None Node.prems l r
      have "n' = Node l' k v (int (getHeight_node r) - int (getHeight_node l)) ds r'"
        "p = R # q" by (auto simp: Let_def)
      with Node.IH(2)[of r' q] r Some show ?thesis by simp
    next
      case rn: None
      with None Node.prems l r show ?thesis
        by (auto simp: Let_def split: if_splits)
    qed
  qed
qed

lemma height_pos: "n \<noteq> Null \<Longrightarrow> 0 < getHeight_node n"
  by (cases n) (auto simp: Let_def)

lemma height_0: "getHeight_node n = 0 \<Longrightarrow> n = Null"
  by (cases n) (auto simp: Let_def)

lemma bf_exact_rotations_defined:
  assumes "bf_exact (Node l k v bf ds r)" and "\<bar>bf\<bar> > 1"
  shows "rotations_defined (Node l k v bf ds r)"
proof (cases "bf > 1")
  case True
  with assms have "getHeight_node r > 0" by simp
  then obtain rl rk rv rbf rds rr where r: "r = Node rl rk rv rbf rds rr"
    by (cases r) auto
  have "rl \<noteq> Null" if "rbf < 0"
    using that assms(1) r height_0[of rl] by (auto simp: Let_def)
  with True r show ?thesis by simp
next
  case False
  with assms have "getHeight_node l > 0" by simp
  then obtain ll lk lv lbf lds lr where l: "l = Node ll lk lv lbf lds lr"
    by (cases l) auto
  have "lr \<noteq> Null" if "lbf > 0"
    using that assms(1) l height_0[of lr] by (auto simp: Let_def)
  with False l show ?thesis by simp
qed

lemma balance_rotations_defined:
  assumes "updateBalanceFactors n = (n', Some p)"
  shows "rotations_defined (subtree_at p n')"
proof -
  from imbalanced_slot[OF assms] obtain l k v bf ds r where
    s: "subtree_at p n' = Node l k v bf ds r" and b: "\<bar>bf\<bar> > 1" by blast
  have "bf_exact n'" using bf_exact_updateBalanceFactors[of n] assms by simp
  then have "bf_exact (Node l k v bf ds r)"
    using bf_exact_subtree_at[of n' p] s by simp
  from bf_exact_rotations_defined[OF this b] s show ?thesis by simp
qed

section \<open>Operations composed of the mutators stay within the reachable states\<close>

lemma reachable_insert_items:
  "reachable bal t \<Longrightarrow> reachable bal (snd (insert_items bal t items))"
proof (induction items arbitrary: t)
  case Nil
  then show ?case by simp
next
  case (Cons x xs)
  obtain key val where x: "x = (key, val)" by (cases x)
  have "reachable bal (snd (insert_item bal t key val))"
    using Cons.prems by (rule reach_insert)
  from Cons.IH[OF this] x show ?case
    by (cases "insert_item bal t key val";
        cases "insert_items bal (snd (insert_item bal t key val)) xs") (simp add: Let_def)
qed

lemma reachable_Tree_items: "reachable bal (Tree_items bal items allow)"
  unfolding Tree_items_def by (rule reachable_insert_items) (rule reach_Tree)

lemma reachable_Tree_copy: "Tree_copy bal other = Inr t' \<Longrightarrow> reachable bal t'"
  by (auto simp: Tree_copy_def reachable_Tree_items split: sum.splits)

lemma reachable_copy_assign:
  "reachable bal this \<Longrightarrow> copy_assign bal this other = Inr t' \<Longrightarrow> reachable bal t'"
  by (auto simp: copy_assign_def Let_def split: sum.splits
      intro!: reachable_insert_items reach_clear)

lemma reachable_getItems: "reachable bal t \<Longrightarrow> reachable bal (snd (getItems bal t))"
  using reach_getHeight[of bal t]
  by (auto simp: getItems_def Let_def split: prod.splits)

lemma reachable_remove_keys:
  "reachable bal t \<Longrightarrow> remove_keys bal t keys all = Inr (d, t') \<Longrightarrow> reachable bal t'"
proof (induction keys arbitrary: t d)
  case Nil
  then show ?case by simp
next
  case (Cons k ks)
  from Cons.prems(2) obtain d1 t1 d2 where
    1: "remove_key bal t k all = Inr (d1, t1)" and
    2: "remove_keys bal t1 ks all = Inr (d2, t')"
    by (auto split: sum.splits)
  from reach_remove_key[OF Cons.prems(1) 1] Cons.IH 2 show ?case by blast
qed

lemma reachable_remove_pairs:
  "reachable bal t \<Longrightarrow> remove_pairs bal t pairs all = Inr (d, t') \<Longrightarrow> reachable bal t'"
proof (induction pairs arbitrary: t d)
  case Nil
  then show ?case by simp
next
  case (Cons p ps)
  obtain k v where p: "p = (k, v)" by (cases p)
  with Cons.prems(2) obtain d1 t1 d2 where
    1: "remove_kv bal t k v False = Inr (d1, t1)" and
    2: "remove_pairs bal t1 ps all = Inr (d2, t')"
    by (auto split: sum.splits)
  from reach_remove_kv[OF Cons.prems(1) 1] Cons.IH 2 show ?case by blast
qed

lemma reachable_deserialize:
  "deserialize bal kt vt bytes flag0 key0 = Inr t \<Longrightarrow> reachable bal t"
  by (auto simp: deserialize_def reachable_Tree_items reach_Tree
      split: sum.splits prod.splits if_splits)

section \<open>Counting lemmas\<close>

lemma live_items_split: "live_items n = num_nodes n + num_duplicates n"
  by (induction n) auto

lemma length_getSortedKeys_node: "length (getSortedKeys_node n reverse) = num_nodes n"
  by (induction n) (auto simp: Let_def)

lemma mset_getSortedKeys_node: "mset (getSortedKeys_node n reverse) = primary_keys n"
  by (induction n) (auto simp: Let_def)

lemma getSortedKeys_node_reverse:
  "getSortedKeys_node n True = rev (getSortedKeys_node n False)"
  by (induction n) (auto simp: Let_def)

lemma size_duplicate_keys: "size (duplicate_keys n) = num_duplicates n"
  by (induction n) auto

lemma getSortedKeys_node_without_duplicates:
  "getSortedKeys_node (without_duplicates n) reverse = getSortedKeys_node n reverse"
  by (induction n) (auto simp: Let_def)

subsection \<open>The balancer moves nodes and never changes their contents\<close>

lemma live_updateBalanceFactors [simp]:
  "live_items (fst (updateBalanceFactors n)) = live_items n"
  by (induction n) (auto simp: Let_def split: prod.splits)

lemma live_rotateLeft [simp]: "live_items (rotateLeft n) = live_items n"
  by (induction n rule: rotateLeft.induct) auto

lemma live_rotateRight [simp]: "live_items (rotateRight n) = live_items n"
  by (induction n rule: rotateRight.induct) auto

lemma live_rotateImbalanced [simp]: "live_items (rotateImbalanced n) = live_items n"
proof (cases n)
  case Null
  then show ?thesis by simp
next
  case (Node l k v bf ds r)
  have "live_items (rotateLeft (Node l k v bf ds (rotateRight r))) = live_items n"
    "live_items (rotateLeft (Node l k v bf ds r)) = live_items n"
    "live_items (rotateRight (Node (rotateLeft l) k v bf ds r)) = live_items n"
    "live_items (rotateRight (Node l k v bf ds r)) = live_items n"
    unfolding live_rotateLeft live_rotateRight using Node by simp_all
  then show ?thesis using Node by simp
qed

lemma live_at_slot:
  "(\<And>m. live_items (f m) = live_items m) \<Longrightarrow> live_items (at_slot p f n) = live_items n"
  by (induction p f n rule: at_slot.induct) auto

lemma live_balance [simp]: "live_items (balance n) = live_items n"
  by (auto simp: balance_def Let_def live_at_slot split: prod.splits option.splits)
     (metis fst_conv live_updateBalanceFactors live_at_slot live_rotateImbalanced)+

subsection \<open>Insertion\<close>

lemma live_insert_loop:
  "insert_loop True allow key val isDup n = (n', inserted, dup) \<Longrightarrow>
   live_items n' = live_items n + (if inserted then 1 else 0)"
  by (induction n arbitrary: isDup n' inserted dup)
     (auto split: if_splits prod.splits)

lemma dups_insert_loop:
  "insert_loop False allow key val isDup n = (n', inserted, dup) \<Longrightarrow>
   num_duplicates n = 0 \<Longrightarrow> num_duplicates n' = 0"
  by (induction n arbitrary: isDup n' inserted dup)
     (auto split: if_splits prod.splits)

lemma insert_loop_present:
  "on_search_path key n \<Longrightarrow> insert_loop True False key val isDup n = (n, False, True)"
  by (induction n arbitrary: isDup) auto

lemma allow_insert_item [simp]:
  "allowDuplicateKeys (snd (insert_item bal t key val)) = allowDuplicateKeys t"
  by (simp add: insert_item_def Let_def split: prod.splits)

lemma allow_insert_items [simp]:
  "allowDuplicateKeys (snd (insert_items bal t items)) = allowDuplicateKeys t"
proof (induction items arbitrary: t)
  case Nil
  then show ?case by simp
next
  case (Cons x xs)
  obtain key val where x: "x = (key, val)" by (cases x)
  obtain ins t1 where i: "insert_item bal t key val = (ins, t1)"
    by (cases "insert_item bal t key val")
  have "allowDuplicateKeys t1 = allowDuplicateKeys t"
    using allow_insert_item[of bal t key val] i by simp
  with Cons[of t1] x i show ?case
    by (cases "insert_items bal t1 xs") (simp add: Let_def)
qed

subsection \<open>Removal of a node\<close>

lemma splitLeftmost_None: "splitLeftmost n = (None, n') \<Longrightarrow> n = Null"
  by (induction n arbitrary: n' rule: splitLeftmost.induct) (auto split: prod.splits)

lemma splitLeftmost_Some:
  "splitLeftmost n = (Some (k, v, bf, ds), n') \<Longrightarrow>
   live_items n = live_items n' + 1 + length ds \<and>
   num_duplicates n = num_duplicates n' + length ds"
  by (induction n arbitrary: n' rule: splitLeftmost.induct) (auto split: prod.splits)

lemma removeNode_counts:
  "live_items (removeNode (Node l k v bf ds r)) + 1 + length ds = live_items (Node l k v bf ds r) \<and>
   num_duplicates (removeNode (Node l k v bf ds r)) + length ds =
     num_duplicates (Node l k v bf ds r)"
proof (cases "l \<noteq> Null \<and> r \<noteq> Null")
  case True
  obtain m r' where s: "splitLeftmost r = (m, r')" by (cases "splitLeftmost r")
  with True obtain mk mv mbf mds where m: "m = Some (mk, mv, mbf, mds)"
    using splitLeftmost_None[of r r'] by (cases m) auto
  from splitLeftmost_Some[of r mk mv mbf mds r'] s m True show ?thesis by simp
next
  case False
  then show ?thesis by (cases l; cases r) auto
qed

lemma removeNode_live_word:
  "of_nat (live_items (removeNode (Node l k v bf ds r))) + (1 + of_nat (length ds)) =
   (of_nat (live_items (Node l k v bf ds r)) :: size_t)"
proof -
  have "live_items (removeNode (Node l k v bf ds r)) + (1 + length ds) =
        live_items (Node l k v bf ds r)"
    using removeNode_counts[of l k v bf ds r] by arith
  then have "(of_nat (live_items (removeNode (Node l k v bf ds r)) + (1 + length ds)) :: size_t) =
        of_nat (live_items (Node l k v bf ds r))"
    by (rule arg_cong)
  then show ?thesis by (simp del: removeNode.simps live_items.simps add: ac_simps)
qed

lemma count_step: "x + e = z \<Longrightarrow> c' = c - e \<Longrightarrow> c' + z = c + (x :: size_t)"
  by auto

subsection \<open>The removal loops\<close>

lemma remove_loop_live:
  "remove_loop True allow key all n = Inr (n', d, removed) \<Longrightarrow>
   of_nat (live_items n') + d = (of_nat (live_items n) :: size_t)"
proof (induction n arbitrary: n' d removed)
  case Null
  then show ?case by simp
next
  case (Node l k v bf ds r)
  show ?case
  proof (cases "k = key")
    case True
    show ?thesis
    proof (cases "all \<or> ds = []")
      case True
      with \<open>k = key\<close> Node.prems
      have "n' = removeNode (Node l k v bf ds r)" "d = 1 + of_nat (length ds)" by auto
      then show ?thesis
        using removeNode_live_word[of l k v bf ds r]
        by (simp del: removeNode.simps live_items.simps)
    next
      case False
      then obtain x xs where "ds = x # xs" by (cases ds) auto
      with False \<open>k = key\<close> Node.prems show ?thesis by auto
    qed
  next
    case False
    with Node show ?thesis
      by (auto split: if_splits sum.splits)
  qed
qed

lemma remove_loop_dups:
  "remove_loop False allow key all n = Inr (n', d, removed) \<Longrightarrow>
   num_duplicates n = 0 \<Longrightarrow> num_duplicates n' = 0"
proof (induction n arbitrary: n' d removed)
  case Null
  then show ?case by simp
next
  case (Node l k v bf ds r)
  show ?case
  proof (cases "k = key")
    case True
    with Node.prems have "n' = removeNode (Node l k v bf ds r)"
      by (auto split: if_splits)
    then show ?thesis
      using removeNode_counts[of l k v bf ds r, THEN conjunct2] Node.prems(2) by simp
  next
    case False
    with Node show ?thesis
      by (auto split: if_splits sum.splits)
  qed
qed

lemma eraseDuplicates_length:
  "eraseDuplicates val all ds = (ds', m) \<Longrightarrow>
   of_nat (length ds') + m = (of_nat (length ds) :: size_t)"
  by (induction ds arbitrary: ds' m) (auto split: if_splits prod.splits)

lemma removeKV_loop_live:
  "removeKV_loop True allow key val all d c n = Inr (n', d', c', removed) \<Longrightarrow>
   c' + of_nat (live_items n) = c + (of_nat (live_items n') :: size_t)"
proof (induction True allow key val all d c n arbitrary: n' d' c' removed
       rule: removeKV_loop.induct)
  case (1 allow key val all d c)
  then show ?case by simp
next
  case (2 allow key val all d c l k v bf ds r)
  show ?case
  proof (cases "k = key")
    case True
    show ?thesis
    proof (cases ds)
      case Nil
      show ?thesis
      proof (cases "v = val")
        case v: True
        with Nil True "2.prems"
        have "n' = removeNode (Node l k v bf ds r)" "c' = c - (1 + of_nat (length ds))"
          by auto
        then show ?thesis
          using count_step[OF removeNode_live_word[of l k v bf ds r], of c' c] by blast
      next
        case False
        with Nil True "2.prems" show ?thesis by auto
      qed
    next
      case (Cons x xs)
      show ?thesis
      proof (cases "v = val")
        case v: True
        show ?thesis
        proof (cases all)
          case False
          with v Cons True "2.prems" show ?thesis by auto
        next
          case a: True
          have "c' + of_nat (live_items (Node l (fst (hd ds)) (snd (hd ds)) bf (tl ds) r)) =
                (c - 1) + (of_nat (live_items n') :: size_t)"
            using "2.hyps"(1)[of n' d' c' removed] True v a Cons "2.prems" by simp
          then show ?thesis using Cons by (simp add: ac_simps)
        qed
      next
        case False
        obtain ds' m where e: "eraseDuplicates val all ds = (ds', m)"
          by (cases "eraseDuplicates val all ds")
        with False True Cons "2.prems"
        have "n' = Node l k v bf ds' r" "c' = c - m" by auto
        moreover have "c' + of_nat (length ds) = c + (of_nat (length ds') :: size_t)"
          using count_step[OF eraseDuplicates_length[OF e], of c' c] \<open>c' = c - m\<close> by blast
        ultimately show ?thesis by simp
      qed
    qed
  next
    case False
    show ?thesis
    proof (cases "key < k")
      case True
      with False "2.prems" "2.hyps"(3) show ?thesis
        by (auto split: sum.splits)
    next
      case nl: False
      with False "2.prems" "2.hyps"(4) show ?thesis
        by (auto split: sum.splits)
    qed
  qed
qed

lemma removeKV_loop_dups:
  "removeKV_loop False allow key val all d c n = Inr (n', d', c', removed) \<Longrightarrow>
   num_duplicates n = 0 \<Longrightarrow> num_duplicates n' = 0"
proof (induction False allow key val all d c n arbitrary: n' d' c' removed
       rule: removeKV_loop.induct)
  case (1 allow key val all d c)
  then show ?case by simp
next
  case (2 allow key val all d c l k v bf ds r)
  have rm: "num_duplicates (removeNode (Node l k v bf ds r)) = 0"
    using removeNode_counts[of l k v bf ds r, THEN conjunct2] "2.prems"(2) by arith
  show ?case
  proof (cases "k = key")
    case True
    show ?thesis
    proof (cases "v = val")
      case v: True
      with True "2.prems"(1) have "n' = removeNode (Node l k v bf ds r)"
        by (auto split: if_splits)
      with rm show ?thesis by simp
    next
      case False
      with True "2.prems" "2.hyps"(2) show ?thesis
        by (auto split: if_splits sum.splits)
    qed
  next
    case False
    show ?thesis
    proof (cases "key < k")
      case True
      with False "2.prems" "2.hyps"(3) show ?thesis
        by (auto split: sum.splits)
    next
      case nl: False
      with False "2.prems" "2.hyps"(4) show ?thesis
        by (auto split: sum.splits)
    qed
  qed
qed

subsection \<open>Invariants of the reachable states\<close>

lemma reachable_count:
  "reachable True t \<Longrightarrow> count t = of_nat (live_items (root t))"
proof (induction rule: reachable.induct)
  case (reach_Tree allow)
  then show ?case by (simp add: Tree_def)
next
  case (reach_insert t key val)
  obtain n' inserted dup where
    l: "insert_loop True (allowDuplicateKeys t) key val False (root t) = (n', inserted, dup)"
    by (cases "insert_loop True (allowDuplicateKeys t) key val False (root t)")
  from live_insert_loop[OF l] reach_insert.IH l show ?case
    by (simp add: insert_item_def Let_def)
next
  case (reach_remove_key t key all d t')
  then obtain n' removed where
    l: "remove_loop True (allowDuplicateKeys t) key all (root t) = Inr (n', d, removed)"
    and t': "t' = t\<lparr>root := (if removed \<and> True then balance n' else n'),
                    count := count t - d,
                    invalidateHeight := (if removed then True else invalidateHeight t)\<rparr>"
    by (auto simp: remove_key_def split: sum.splits)
  from remove_loop_live[OF l] reach_remove_key.IH
  have "count t - d = of_nat (live_items n')" by (metis add_diff_cancel_right')
  with t' show ?case by simp
next
  case (reach_remove_kv t key val all d t')
  then obtain n' c' removed where
    l: "removeKV_loop True (allowDuplicateKeys t) key val all 0 (count t) (root t) =
          Inr (n', d, c', removed)"
    and t': "t' = t\<lparr>root := (if removed \<and> True then balance n' else n'),
                    count := c',
                    invalidateHeight := (if removed then True else invalidateHeight t)\<rparr>"
    by (auto simp: remove_kv_def split: sum.splits)
  from removeKV_loop_live[OF l] reach_remove_kv.IH
  have "c' = of_nat (live_items n')" by (metis add_right_cancel add.commute)
  with t' show ?case by simp
next
  case (reach_clear t)
  then show ?case by (simp add: clear_def)
next
  case (reach_getHeight t)
  then show ?case by (simp add: getHeight_def Let_def)
qed

lemma reachable_no_duplicates:
  "reachable False t \<Longrightarrow> num_duplicates (root t) = 0"
proof (induction rule: reachable.induct)
  case (reach_Tree allow)
  then show ?case by (simp add: Tree_def)
next
  case (reach_insert t key val)
  obtain n' inserted dup where
    l: "insert_loop False (allowDuplicateKeys t) key val False (root t) = (n', inserted, dup)"
    by (cases "insert_loop False (allowDuplicateKeys t) key val False (root t)")
  from dups_insert_loop[OF l reach_insert.IH] l show ?case
    by (simp add: insert_item_def Let_def)
next
  case (reach_remove_key t key all d t')
  then show ?case
    by (auto simp: remove_key_def split: sum.splits dest: remove_loop_dups)
next
  case (reach_remove_kv t key val all d t')
  then show ?case
    by (auto simp: remove_kv_def split: sum.splits dest: removeKV_loop_dups)
next
  case (reach_clear t)
  then show ?case by (simp add: clear_def)
next
  case (reach_getHeight t)
  then show ?case by (simp add: getHeight_def Let_def)
qed

section \<open>Reading a stream\<close>

lemma length_le_bytes [simp]: "length (le_bytes c n) = c"
  by (induction c arbitrary: n) auto

lemma le_nat_le_bytes: "le_nat (le_bytes c n) = n mod 256 ^ c"
proof (induction c arbitrary: n)
  case 0
  then show ?case by simp
next
  case (Suc c)
  have "unat (of_nat (n mod 256) :: byte) = n mod 256"
    by (simp add: unat_of_nat)
  then show ?case
    using Suc[of "n div 256"] by (simp add: mod_mult2_eq)
qed

lemma le_nat_size: "n < 2 ^ 63 \<Longrightarrow> le_nat (le_bytes 8 n) = n"
  by (simp add: le_nat_le_bytes)

lemma drop_le_bytes: "drop c (le_bytes (Suc c) n) = [of_nat (n div 256 ^ c mod 256)]"
proof (induction c arbitrary: n)
  case 0
  then show ?case by simp
next
  case (Suc c)
  have "drop (Suc c) (le_bytes (Suc (Suc c)) n) = drop c (le_bytes (Suc c) (n div 256))"
    by simp
  also have "\<dots> = [of_nat (n div 256 div 256 ^ c mod 256)]" by (rule Suc)
  finally show ?case by (simp add: div_mult2_eq)
qed

lemma not_negative_streamsize:
  assumes "n < 2 ^ 63"
  shows "\<not> negative_streamsize (le_bytes 8 n)"
proof -
  let ?m = "n div 256 ^ 7"
  have "n < 128 * 256 ^ 7" using assms by simp
  then have m: "?m < 128" by (rule less_mult_imp_div_less)
  then have "unat (of_nat (?m mod 256) :: byte) < 128"
    by (simp add: unat_of_nat)
  then have "\<not> (128 :: byte) \<le> of_nat (?m mod 256)"
    by (simp add: word_le_nat_alt)
  moreover have "drop 7 (le_bytes 8 n) = [of_nat (?m mod 256)]"
    using drop_le_bytes[of 7 n] by simp
  ultimately show ?thesis
    by (simp add: negative_streamsize_def)
qed

lemma length_serializeVariable:
  "length (repr ty x) = sizeof ty \<Longrightarrow> length (serializeVariable ty x) = 8 + sizeof ty"
  by (simp add: serializeVariable_def)

text \<open>A complete variable is read back and the stream stays good.\<close>

lemma deserializeVariable_complete:
  assumes "fundamental_ok ty x" and "length var \<le> sizeof ty"
  shows "deserializeVariable ty \<lparr>buf = serializeVariable ty x @ rest, good = True\<rparr> var =
           Inr (repr ty x, \<lparr>buf = rest, good = True\<rparr>, True)"
  using assms
  by (simp add: deserializeVariable_def read_def serializeVariable_def fundamental_ok_def
      le_nat_size not_negative_streamsize Let_def)

text \<open>A variable whose bytes end early is reported as a failed read.\<close>

lemma deserializeVariable_cut:
  assumes "sizeof ty < 2 ^ 63" and "length (repr ty x) = sizeof ty" and "j < 8 + sizeof ty"
  shows "\<exists>var' s'. deserializeVariable ty
            \<lparr>buf = take j (serializeVariable ty x), good = True\<rparr> var = Inr (var', s', False)"
proof (cases "j < 8")
  case True
  then show ?thesis
    by (simp add: deserializeVariable_def read_def serializeVariable_def Let_def)
next
  case False
  then have "take j (serializeVariable ty x) = le_bytes 8 (sizeof ty) @ take (j - 8) (repr ty x)"
    by (simp add: serializeVariable_def)
  then show ?thesis
    using assms False
    by (simp add: deserializeVariable_def read_def le_nat_size not_negative_streamsize Let_def)
qed

lemma deserialize_loop_record:
  assumes ok: "item_ok kt vt x" and key: "length key \<le> sizeof kt"
  shows "deserialize_loop kt vt \<lparr>buf = serialize_item kt vt x @ rest, good = True\<rparr> key acc =
         deserialize_loop kt vt \<lparr>buf = rest, good = True\<rparr> (repr kt (fst x)) (acc @ [x])"
proof (cases vt)
  case (VoidValue u)
  with ok have k: "fundamental_ok kt (fst x)" and v: "snd x = u"
    by (simp_all add: item_ok_def)
  have x: "(value_of kt (repr kt (fst x)), u) = x"
    using k v by (cases x) (simp add: fundamental_ok_def)
  show ?thesis
    using VoidValue deserializeVariable_complete[OF k key, of rest] x
    by (subst deserialize_loop.simps) (simp add: serialize_item_def)
next
  case (FundamentalValue ty)
  with ok have k: "fundamental_ok kt (fst x)" and v: "fundamental_ok ty (snd x)"
    by (simp_all add: item_ok_def)
  have x: "(value_of kt (repr kt (fst x)), value_of ty (repr ty (snd x))) = x"
    using k v by (cases x) (simp add: fundamental_ok_def)
  have vlen: "length (replicate (sizeof ty) (0::byte)) \<le> sizeof ty" by simp
  show ?thesis
    using FundamentalValue
      deserializeVariable_complete[OF k key, of "serializeVariable ty (snd x) @ rest"]
      deserializeVariable_complete[OF v vlen, of rest] x
    by (subst deserialize_loop.simps) (simp add: serialize_item_def)
qed

lemma deserialize_loop_records:
  assumes "list_all (item_ok kt vt) done" and "length key \<le> sizeof kt"
  shows "\<exists>key'. length key' \<le> sizeof kt \<and>
           deserialize_loop kt vt
             \<lparr>buf = concat (map (serialize_item kt vt) done) @ rest, good = True\<rparr> key acc =
           deserialize_loop kt vt \<lparr>buf = rest, good = True\<rparr> key' (acc @ done)"
  using assms
proof (induction "done" arbitrary: key acc)
  case Nil
  then show ?case by auto
next
  case (Cons x xs)
  then have x: "item_ok kt vt x" and xs: "list_all (item_ok kt vt) xs" by simp_all
  have klen: "length (repr kt (fst x)) \<le> sizeof kt"
    using x by (simp add: item_ok_def fundamental_ok_def)
  from Cons.IH[OF xs klen, of "acc @ [x]"] obtain key' where
    "length key' \<le> sizeof kt"
    "deserialize_loop kt vt
       \<lparr>buf = concat (map (serialize_item kt vt) xs) @ rest, good = True\<rparr>
       (repr kt (fst x)) (acc @ [x]) =
     deserialize_loop kt vt \<lparr>buf = rest, good = True\<rparr> key' ((acc @ [x]) @ xs)"
    by blast
  then show ?case
    using deserialize_loop_record[OF x Cons.prems(2),
        of "concat (map (serialize_item kt vt) xs) @ rest" acc]
    by auto
qed

lemma deserialize_loop_cut:
  assumes ok: "item_ok kt vt x" and key: "length key \<le> sizeof kt"
    and j: "j < length (serialize_item kt vt x)"
  shows "deserialize_loop kt vt \<lparr>buf = take j (serialize_item kt vt x), good = True\<rparr> key acc =
         Inr (acc, 8 + sizeof kt \<le> j)"
proof -
  from ok have k: "fundamental_ok kt (fst x)" by (simp add: item_ok_def)
  then have ksz: "sizeof kt < 2 ^ 63" and klen: "length (repr kt (fst x)) = sizeof kt"
    by (simp_all add: fundamental_ok_def)
  show ?thesis
  proof (cases "j < 8 + sizeof kt")
    case True
    then have "take j (serialize_item kt vt x) = take j (serializeVariable kt (fst x))"
      by (simp add: serialize_item_def length_serializeVariable[OF klen])
    moreover from deserializeVariable_cut[OF ksz klen True, of key] obtain var' s' where
      "deserializeVariable kt \<lparr>buf = take j (serializeVariable kt (fst x)), good = True\<rparr> key
         = Inr (var', s', False)" by blast
    ultimately show ?thesis
      using True by (subst deserialize_loop.simps) simp
  next
    case False
    show ?thesis
    proof (cases vt)
      case (VoidValue u)
      with j False show ?thesis
        by (simp add: serialize_item_def length_serializeVariable[OF klen])
    next
      case (FundamentalValue ty)
      with ok have v: "fundamental_ok ty (snd x)" by (simp add: item_ok_def)
      then have vsz: "sizeof ty < 2 ^ 63" and vlen: "length (repr ty (snd x)) = sizeof ty"
        by (simp_all add: fundamental_ok_def)
      let ?j' = "j - (8 + sizeof kt)"
      have split: "take j (serialize_item kt vt x) =
                   serializeVariable kt (fst x) @ take ?j' (serializeVariable ty (snd x))"
        using False FundamentalValue
        by (simp add: serialize_item_def length_serializeVariable[OF klen])
      have j': "?j' < 8 + sizeof ty"
        using j False FundamentalValue
        by (simp add: serialize_item_def length_serializeVariable[OF klen]
            length_serializeVariable[OF vlen])
      from deserializeVariable_cut[OF vsz vlen j', of "replicate (sizeof ty) 0"]
      obtain var' s' where
        "deserializeVariable ty \<lparr>buf = take ?j' (serializeVariable ty (snd x)), good = True\<rparr>
           (replicate (sizeof ty) 0) = Inr (var', s', False)" by blast
      then show ?thesis
        using split False FundamentalValue
          deserializeVariable_complete[OF k key, of "take ?j' (serializeVariable ty (snd x))"]
        by (subst deserialize_loop.simps) simp
    qed
  qed
qed

lemma fundamental_ok_bool: "fundamental_ok bool_t b"
  by (simp add: fundamental_ok_def bool_t_def)

section \<open>Insertion of a key that is present\<close>

text \<open>
  C1. Claim: in a tree constructed with \<^verbatim>\<open>allowDuplicateKeys = false\<close>, balanced or not,
  inserting a key that is already present returns false and leaves the tree as it was.

  The unbalanced tree does not: with keys 5 and 3 inserted (5 at the root, 3 its left
  child, count 2), \<^verbatim>\<open>insert(5)\<close> returns true, the root slot holds a fresh childless
  node 5, the node 3 is gone and the count is 3.
\<close>

theorem C1_unbalanced_insert_existing_key_replaces_subtree:
  "Tree_items False [(5::int, ()), (3, ())] False =
     \<lparr>root = Node (Node Null 3 () 0 [] Null) 5 () 0 [] Null, allowDuplicateKeys = False,
      count = 2, height = 0, invalidateHeight = True\<rparr> \<and>
   insert_item False (Tree_items False [(5::int, ()), (3, ())] False) 5 () =
     (True, \<lparr>root = Node Null 5 () 0 [] Null, allowDuplicateKeys = False,
             count = 3, height = 0, invalidateHeight = True\<rparr>)"
  by code_simp

section \<open>Balance after removal\<close>

text \<open>
  C2. Claim: in a balanced tree every node has a balance factor of magnitude at most 1
  after each operation that adds or removes a node.

  Twelve insertions build a balanced tree of height 5 whose left subtree has the
  minimal shape of height 3. Removing key 2 makes node 3 imbalanced; \<^verbatim>\<open>balance()\<close>
  rotates there once, the left subtree shrinks to height 2 while the right subtree has
  height 4, and the root is left with balance factor 2.
\<close>

theorem C2_single_rotation_after_remove_leaves_imbalance:
  "bf_ok (root (Tree_items True
       [(8::int, ()), (3, ()), (12, ()), (2, ()), (5, ()), (10, ()), (15, ()), (6, ()),
        (9, ()), (13, ()), (17, ()), (18, ())] True)) \<and>
   remove_key True (Tree_items True
       [(8::int, ()), (3, ()), (12, ()), (2, ()), (5, ()), (10, ()), (15, ()), (6, ()),
        (9, ()), (13, ()), (17, ()), (18, ())] True) 2 False =
   Inr (1, \<lparr>root =
              Node (Node (Node Null 3 () 0 [] Null) 5 () 0 [] (Node Null 6 () 0 [] Null))
                8 () 2 []
                (Node (Node (Node Null 9 () 0 [] Null) 10 () (- 1) [] Null) 12 () 1 []
                   (Node (Node Null 13 () 0 [] Null) 15 () 1 []
                      (Node Null 17 () 1 [] (Node Null 18 () 0 [] Null)))),
            allowDuplicateKeys = True, count = 11, height = 0, invalidateHeight = True\<rparr>)"
  by code_simp

section \<open>The item count\<close>

text \<open>
  C3. Claim: after every sequence of operations \<^verbatim>\<open>getCount()\<close> is the number of live
  items.

  In the unbalanced tree without duplicates the insertions 5, 3, 5 leave one node and
  a count of 3.
\<close>

theorem C3_unbalanced_count_exceeds_live_items:
  "getCount (Tree_items False [(5::int, ()), (3, ()), (5, ())] False) = 3 \<and>
   live_items (root (Tree_items False [(5::int, ()), (3, ()), (5, ())] False)) = 1"
  by code_simp

section \<open>Round trip through a file\<close>

text \<open>
  C4. Claim: deserializing the file written by \<^verbatim>\<open>serialize(T)\<close> gives a tree with the
  same flag and the same multiset of \<^verbatim>\<open>getItems()\<close>.

  For the balanced tree with duplicates built by inserting 5, 7, 7, 3, \<^verbatim>\<open>getItems()\<close> is
  5, 3, 7, 7. Deserialization reinserts in that order; the last insertion is a
  duplicate, which clears \<^verbatim>\<open>invalidateHeight\<close> while the cached height is still 0, and
  \<^verbatim>\<open>getItems()\<close> of the new tree is empty although it holds four items.
\<close>

theorem C4_round_trip_getItems_differs:
  "fst (getItems True (Tree_items True [(5::int, ()), (7, ()), (7, ()), (3, ())] True)) =
     Inr [(5, ()), (3, ()), (7, ()), (7, ())] \<and>
   (case fst (serialize True int_t (VoidValue ())
                (Tree_items True [(5::int, ()), (7, ()), (7, ()), (3, ())] True)) of
      Inl e \<Rightarrow> Inl e
    | Inr bytes \<Rightarrow>
        (case deserialize True int_t (VoidValue ()) bytes [0] [0, 0, 0, 0] of
           Inl e \<Rightarrow> Inl e
         | Inr t' \<Rightarrow> Inr (fst (getItems True t'), getCount t'))) =
     Inr (Inr [], 4)"
  by code_simp

section \<open>Truncated streams\<close>

text \<open>
  C5. Claim: when the stream ends partway through a record, \<^verbatim>\<open>deserialize\<close> treats the
  file as corrupt and yields an empty tree; when it ends on a record boundary it yields
  the tree of the complete records.

  The code reports a record that ends inside its value, and accepts one that ends
  inside its key: the failed read of a key leaves the loop with \<^verbatim>\<open>failedRead\<close> still
  false. For a tree without values, a stream holding the flag, the record of key 5 and
  three bytes of the record of key 7 gives the tree that holds 5, not an empty tree.
  For a tree with \<^verbatim>\<open>int\<close> keys and \<^verbatim>\<open>char\<close> values, a stream holding the flag, the
  record of (5, 1) and five bytes of the record of (7, 2) gives the tree that holds
  (5, 1), while the same stream cut after twelve bytes of that record (the key
  complete, the value missing) gives the empty tree.
\<close>

theorem C5_cut_inside_key_is_accepted:
  "deserialize True int_t (VoidValue ())
     (serialize_stream int_t (VoidValue ()) False [(5, ())] @
      take 3 (serialize_item int_t (VoidValue ()) (7, ()))) [0] [0, 0, 0, 0] =
     Inr \<lparr>root = Node Null 5 () 0 [] Null, allowDuplicateKeys = False, count = 1,
          height = 0, invalidateHeight = True\<rparr> \<and>
   \<not> isEmpty \<lparr>root = Node Null (5::int) () 0 [] Null, allowDuplicateKeys = False, count = 1,
               height = 0, invalidateHeight = True\<rparr> \<and>
   deserialize True int_t (FundamentalValue char_t)
     (serialize_stream int_t (FundamentalValue char_t) False [(5, 1)] @
      take 5 (serialize_item int_t (FundamentalValue char_t) (7, 2))) [0] [0, 0, 0, 0] =
     Inr \<lparr>root = Node Null 5 1 0 [] Null, allowDuplicateKeys = False, count = 1,
          height = 0, invalidateHeight = True\<rparr> \<and>
   deserialize True int_t (FundamentalValue char_t)
     (serialize_stream int_t (FundamentalValue char_t) False [(5, 1)] @
      take 12 (serialize_item int_t (FundamentalValue char_t) (7, 2))) [0] [0, 0, 0, 0] =
     Inr (Tree True)"
  by code_simp

text \<open>
  What \<^verbatim>\<open>deserialize\<close> does on any truncated stream of records of fundamental type. The
  stream is the serialization of a flag and of the items \<open>done\<close>, followed by the first
  \<open>j\<close> bytes of the record of a further item \<open>x\<close>, fewer than the whole record. If the
  cut lies at or after the end of the key of \<open>x\<close>, which can only happen in a tree with
  values, the result is the default-constructed tree. Otherwise the result is what the
  constructor from items makes of \<open>done\<close> and the flag.
\<close>

theorem deserialize_truncated_stream:
  assumes items: "list_all (item_ok kt vt) (x # done)"
    and key0: "length key0 = sizeof kt"
    and flag0: "length flag0 = 1"
    and j: "j < length (serialize_item kt vt x)"
  shows "deserialize bal kt vt
           (serialize_stream kt vt allow done @ take j (serialize_item kt vt x)) flag0 key0 =
         Inr (if 8 + sizeof kt \<le> j then Tree True else Tree_items bal done allow)"
proof -
  from items have x: "item_ok kt vt x" and ds: "list_all (item_ok kt vt) done" by simp_all
  have f0: "length flag0 \<le> sizeof bool_t" using flag0 by (simp add: bool_t_def)
  have k0: "length key0 \<le> sizeof kt" using key0 by simp
  let ?rest = "take j (serialize_item kt vt x)"
  from deserialize_loop_records[OF ds k0, of ?rest "[]"] obtain key' where
    k': "length key' \<le> sizeof kt" and
    lp: "deserialize_loop kt vt
           \<lparr>buf = concat (map (serialize_item kt vt) done) @ ?rest, good = True\<rparr> key0 [] =
         deserialize_loop kt vt \<lparr>buf = ?rest, good = True\<rparr> key' done"
    by auto
  have v: "value_of bool_t (repr bool_t allow) = allow"
    using fundamental_ok_bool[of allow] by (simp add: fundamental_ok_def)
  show ?thesis
    using deserializeVariable_complete[OF fundamental_ok_bool f0,
        of allow "concat (map (serialize_item kt vt) done) @ ?rest"]
      lp deserialize_loop_cut[OF x k' j, of "done"] v
    by (simp add: deserialize_def serialize_stream_def)
qed

theorem deserialize_truncated_stream_witness:
  "deserialize True int_t (FundamentalValue char_t)
     (serialize_stream int_t (FundamentalValue char_t) False [(5, 1)] @
      take 12 (serialize_item int_t (FundamentalValue char_t) (7, 2))) [0] [0, 0, 0, 0] =
   Inr (Tree True) \<and>
   deserialize True int_t (FundamentalValue char_t)
     (serialize_stream int_t (FundamentalValue char_t) False [(5, 1)] @
      take 5 (serialize_item int_t (FundamentalValue char_t) (7, 2))) [0] [0, 0, 0, 0] =
   Inr (Tree_items True [(5, 1)] False)"
proof -
  let ?vt = "FundamentalValue char_t"
  have ok: "list_all (item_ok int_t ?vt) [(7, 2), (5, 1)]"
    by (simp add: item_ok_def fundamental_ok_def int_t_def char_t_def)
  have k: "length [0, 0, 0, 0 :: byte] = sizeof int_t" by (simp add: int_t_def)
  have f: "length [0 :: byte] = 1" by simp
  have len: "length (serialize_item int_t ?vt (7, 2)) = 21"
    by (simp add: serialize_item_def serializeVariable_def int_t_def char_t_def)
  have j1: "12 < length (serialize_item int_t ?vt (7, 2))" by (simp add: len)
  have j2: "5 < length (serialize_item int_t ?vt (7, 2))" by (simp add: len)
  have sz: "sizeof int_t = 4" by (simp add: int_t_def)
  show ?thesis
    using deserialize_truncated_stream[OF ok k f j1, of True False]
      deserialize_truncated_stream[OF ok k f j2, of True False]
    by (simp add: sz)
qed

section \<open>Duplicate insertion and the height cache\<close>

text \<open>
  C6. Claim: in a balanced tree with duplicates, inserting a present key appends to the
  node's list, returns true and leaves the cached height and its invalidation flag
  unaffected.

  After the first \<^verbatim>\<open>insert(5)\<close> the flag is set and the cached height is 0. The second
  \<^verbatim>\<open>insert(5)\<close> appends to the list and clears the flag, so that \<^verbatim>\<open>getHeight()\<close> answers 0
  for a tree of height 1.
\<close>

theorem C6_duplicate_insert_clears_invalidation_flag:
  "invalidateHeight (snd (insert_item True (Tree True) (5::int) ())) = True \<and>
   insert_item True (snd (insert_item True (Tree True) (5::int) ())) 5 () =
     (True, \<lparr>root = Node Null 5 () 0 [(5, ())] Null, allowDuplicateKeys = True,
             count = 2, height = 0, invalidateHeight = False\<rparr>) \<and>
   fst (getHeight (snd (insert_item True (snd (insert_item True (Tree True) (5::int) ())) 5 ())))
     = 0 \<and>
   getHeight_node
     (root (snd (insert_item True (snd (insert_item True (Tree True) (5::int) ())) 5 ()))) = 1"
  by code_simp

section \<open>Removal of all occurrences\<close>

text \<open>
  C7. Claim: for every tree and key, \<^verbatim>\<open>remove(key, all = true)\<close> returns
  \<^verbatim>\<open>getCount(key)\<close> as it was before the call, decreases the count by that amount, and
  leaves \<^verbatim>\<open>getCount(key) == 0\<close>.

  In the unbalanced tree with duplicates holding 5 twice, \<^verbatim>\<open>getCount(5)\<close> is 2 and
  \<^verbatim>\<open>remove(5, true)\<close> removes the root and then reads through \<^verbatim>\<open>currentLeft\<close>, a pointer
  into the node it has just destroyed.
\<close>

theorem C7_unbalanced_remove_all_reads_destroyed_node:
  "getCount_key False (Tree_items False [(5::int, ()), (5, ())] True) 5 = 2 \<and>
   remove_key False (Tree_items False [(5::int, ()), (5, ())] True) 5 True = Inl UseAfterFree"
  by code_simp

section \<open>Removal of a batch of pairs\<close>

text \<open>
  C8. Claim: \<^verbatim>\<open>remove(pairs, all)\<close> returns the sum of the counts of
  \<^verbatim>\<open>remove(key, value, all)\<close> over the pairs.

  In the balanced tree holding (5, b), (5, a), (5, a), \<^verbatim>\<open>remove(5, a, true)\<close> removes two
  items and returns 2, while \<^verbatim>\<open>remove({(5, a)}, true)\<close> removes one and returns 1.
\<close>

theorem C8_remove_pairs_ignores_all:
  "remove_kv True (Tree_items True [(5::int, ''b''), (5, ''a''), (5, ''a'')] True) 5 ''a'' True =
     Inr (2, \<lparr>root = Node Null 5 ''b'' 0 [] Null, allowDuplicateKeys = True,
              count = 1, height = 0, invalidateHeight = False\<rparr>) \<and>
   remove_pairs True (Tree_items True [(5::int, ''b''), (5, ''a''), (5, ''a'')] True)
       [(5, ''a'')] True =
     Inr (1, \<lparr>root = Node Null 5 ''b'' 0 [(5, ''a'')] Null, allowDuplicateKeys = True,
              count = 2, height = 0, invalidateHeight = False\<rparr>)"
  by code_simp

section \<open>Copy assignment\<close>

text \<open>
  C9. Claim: copy assignment clears the destination and reinserts the source's items
  under the destination's own policy, so that assigning a source with duplicates to a
  destination without them drops the duplicate occurrences.

  Unbalanced source with duplicates holding (5, a), (3, x), (5, b) in \<^verbatim>\<open>getItems()\<close>
  order, unbalanced destination without duplicates: the reinsertion of (5, b) replaces
  the root and its subtree. The destination ends with the single node (5, b) and a
  count of 3: the duplicate occurrence is kept, the first occurrence (5, a) and the
  item (3, x), which is no duplicate, are lost.
\<close>

theorem C9_unbalanced_assignment_loses_other_items:
  "fst (getItems False (Tree_items False [(5::int, ''a''), (3, ''x''), (5, ''b'')] True)) =
     Inr [(5, ''a''), (3, ''x''), (5, ''b'')] \<and>
   copy_assign False (Tree False)
       (Tree_items False [(5::int, ''a''), (3, ''x''), (5, ''b'')] True) =
     Inr \<lparr>root = Node Null 5 ''b'' 0 [] Null, allowDuplicateKeys = False,
          count = 3, height = 0, invalidateHeight = True\<rparr>"
  by code_simp

section \<open>Sorted keys\<close>

text \<open>
  C10. In every state of a tree, \<^verbatim>\<open>getSortedKeys(reverse)\<close> returns exactly the keys held
  in the nodes' primary slots, each as often as a node holds it, and no entry of a
  \<^verbatim>\<open>duplicates\<close> list: as a multiset it is \<open>primary_keys\<close>, the descending result is
  the ascending one reversed, its length is the number of nodes, and it is the same
  whatever the lists hold. In a balanced tree \<^verbatim>\<open>getCount()\<close> is the number of nodes plus
  the number of list entries, so that whenever a list is non-empty (and the items
  number fewer than \<open>2 ^ 64\<close>, the range of \<^verbatim>\<open>size_t\<close>) the length is strictly less than
  \<^verbatim>\<open>getCount()\<close>. In an unbalanced tree no list holds an entry, so every item held is a
  node and the result has one entry for each of them.
\<close>

theorem C10_getSortedKeys_primary_keys_only:
  assumes "reachable bal t"
  shows "mset (getSortedKeys t reverse) = primary_keys (root t) \<and>
         getSortedKeys t True = rev (getSortedKeys t False) \<and>
         length (getSortedKeys t reverse) = num_nodes (root t) \<and>
         getSortedKeys (t\<lparr>root := without_duplicates (root t)\<rparr>) reverse =
           getSortedKeys t reverse \<and>
         (if bal
          then getCount t = of_nat (live_items (root t)) \<and>
               (0 < num_duplicates (root t) \<and> live_items (root t) < 2 ^ 64 \<longrightarrow>
                of_nat (length (getSortedKeys t reverse)) < getCount t)
          else duplicate_keys (root t) = {#} \<and>
               length (getSortedKeys t reverse) = live_items (root t))"
proof -
  have ms: "mset (getSortedKeys t reverse) = primary_keys (root t)"
    by (simp add: getSortedKeys_def mset_getSortedKeys_node)
  have rv: "getSortedKeys t True = rev (getSortedKeys t False)"
    by (simp add: getSortedKeys_def getSortedKeys_node_reverse)
  have len: "length (getSortedKeys t reverse) = num_nodes (root t)"
    by (simp add: getSortedKeys_def length_getSortedKeys_node)
  have wd: "getSortedKeys (t\<lparr>root := without_duplicates (root t)\<rparr>) reverse =
            getSortedKeys t reverse"
    by (simp add: getSortedKeys_def getSortedKeys_node_without_duplicates)
  show ?thesis
  proof (cases bal)
    case True
    with assms have c: "getCount t = of_nat (live_items (root t))"
      using reachable_count[of t] by (simp add: getCount_def)
    have "of_nat (num_nodes (root t)) < getCount t"
      if "0 < num_duplicates (root t)" and "live_items (root t) < 2 ^ 64"
      using that unfolding c live_items_split
      by (simp add: of_nat_word_less_iff take_bit_nat_eq_self del: of_nat_add)
    with ms rv len wd c True show ?thesis by simp
  next
    case False
    with assms have nd: "num_duplicates (root t) = 0"
      using reachable_no_duplicates[of t] by simp
    then have "duplicate_keys (root t) = {#}"
      using size_duplicate_keys[of "root t"] by simp
    with False ms rv len wd nd show ?thesis
      by (simp add: live_items_split)
  qed
qed

text \<open>
  The theorem at the balanced tree built by inserting 5, 5, 3: two nodes, three items;
  the result holds 3 and 5 once each.
\<close>

theorem C10_getSortedKeys_primary_keys_only_witness:
  "mset (getSortedKeys (Tree_items True [(5::int, ()), (5, ()), (3, ())] True) False) =
     {#3, 5#} \<and>
   getSortedKeys (Tree_items True [(5::int, ()), (5, ()), (3, ())] True) True =
     rev (getSortedKeys (Tree_items True [(5::int, ()), (5, ()), (3, ())] True) False) \<and>
   length (getSortedKeys (Tree_items True [(5::int, ()), (5, ()), (3, ())] True) False) = 2 \<and>
   getCount (Tree_items True [(5::int, ()), (5, ()), (3, ())] True) = 3 \<and>
   (of_nat (length (getSortedKeys (Tree_items True [(5::int, ()), (5, ()), (3, ())] True)
      False)) :: size_t) <
   getCount (Tree_items True [(5::int, ()), (5, ()), (3, ())] True)"
proof -
  let ?t = "Tree_items True [(5::int, ()), (5, ()), (3, ())] True"
  have r: "reachable True ?t"
    by (rule reachable_Tree_items)
  have e: "root ?t = Node (Node Null 3 () 0 [] Null) 5 () (- 1) [(5, ())] Null"
    by code_simp
  show ?thesis
    using C10_getSortedKeys_primary_keys_only[OF r, of False] by (simp add: e)
qed

section \<open>Further properties of the balanced instance and of copying\<close>

text \<open>
  In a balanced tree without duplicates, inserting a key that the descent meets returns
  false and leaves every field of the tree as it was.
\<close>

theorem balanced_insert_present_key_rejected:
  assumes "\<not> allowDuplicateKeys t" and "on_search_path key (root t)"
  shows "insert_item True t key val = (False, t)"
  using assms insert_loop_present[of key "root t" val False]
  by (simp add: insert_item_def)

theorem balanced_insert_present_key_rejected_witness:
  "insert_item True (Tree_items True [(5::int, ()), (3, ())] False) 3 () =
     (False, Tree_items True [(5::int, ()), (3, ())] False)"
proof -
  let ?t = "Tree_items True [(5::int, ()), (3, ())] False"
  have a: "\<not> allowDuplicateKeys ?t" by code_simp
  have p: "on_search_path 3 (root ?t)" by code_simp
  show ?thesis using balanced_insert_present_key_rejected[OF a p] .
qed

text \<open>
  In every state of a balanced tree \<^verbatim>\<open>getCount()\<close> is the number of items held: the
  nodes and the entries of their lists.
\<close>

theorem balanced_count_is_live_items:
  assumes "reachable True t"
  shows "getCount t = of_nat (live_items (root t))"
  using assms reachable_count[of t] by (simp add: getCount_def)

theorem balanced_count_is_live_items_witness:
  "getCount (snd (insert_item True (snd (insert_item True (Tree True) (5::int) ())) 7 ())) =
   of_nat (live_items
     (root (snd (insert_item True (snd (insert_item True (Tree True) (5::int) ())) 7 ())))) \<and>
   live_items
     (root (snd (insert_item True (snd (insert_item True (Tree True) (5::int) ())) 7 ()))) = 2"
proof -
  let ?t = "snd (insert_item True (snd (insert_item True (Tree True) (5::int) ())) 7 ())"
  have r: "reachable True ?t"
    by (intro reachable.intros)
  have l: "live_items (root ?t) = 2" by code_simp
  show ?thesis
    using balanced_count_is_live_items[OF r] l by simp
qed

text \<open>
  Copy assignment keeps the destination's \<^verbatim>\<open>allowDuplicateKeys\<close>; the copy constructor
  takes the source's.
\<close>

theorem copy_assign_keeps_policy_copy_adopts_it:
  "(case copy_assign bal this other of
      Inl e \<Rightarrow> True
    | Inr t' \<Rightarrow> allowDuplicateKeys t' = allowDuplicateKeys this) \<and>
   (case Tree_copy bal other of
      Inl e \<Rightarrow> True
    | Inr t' \<Rightarrow> allowDuplicateKeys t' = allowDuplicateKeys other)"
  by (auto simp: copy_assign_def Tree_copy_def Tree_items_def clear_def Tree_def
      isDuplicationAllowed_def Let_def split: sum.splits)

end
